theory Spec2Isabelle
  imports Main "HOL-Library.Multiset"
begin

section \<open>The iCalendar decoder of package ics\<close>

text \<open>
  The development follows \<^verbatim>\<open>decode.go\<close>. Go strings are byte strings and are
  modelled as \<^typ>\<open>string\<close>; the bytes the decoder treats specially get names.
\<close>

definition nl :: char where "nl = CHR 0x0A"
definition cr :: char where "cr = CHR 0x0D"
definition sp :: char where "sp = CHR 0x20"
definition bsl :: char where "bsl = CHR 0x5C"

subsection \<open>Errors and the buffered reader\<close>

text \<open>
  The \<^verbatim>\<open>error\<close> values that can flow through the decoder: \<^verbatim>\<open>io.EOF\<close>, any other
  failure of the underlying \<^verbatim>\<open>io.Reader\<close>, the two \<^verbatim>\<open>errors.New\<close> values of
  \<^verbatim>\<open>decode.go\<close>, the \<^verbatim>\<open>*time.ParseError\<close> of \<^verbatim>\<open>time.Parse\<close>, and the two errors of
  the decoder's second copy (\<^verbatim>\<open>io.ErrUnexpectedEOF\<close>, "unexpected long line").
\<close>

datatype error =
    EOF
  | ReadFailure
  | BadLine
  | NoBeginVCalendar
  | ParseError
  | ErrUnexpectedEOF
  | LongLine

text \<open>
  A \<^verbatim>\<open>bufio.Reader\<close> over a stream: the bytes not yet consumed, and the error the
  underlying reader reports once they are used up (\<open>EOF\<close> for a stream that simply ends).
\<close>

record reader =
  unread :: string
  ending :: error

text \<open>The bytes up to and including the first delimiter, and what follows them.\<close>

fun upto_delim :: "char \<Rightarrow> string \<Rightarrow> string \<times> string" where
  "upto_delim d [] = ([], [])"
| "upto_delim d (c # cs) =
     (if c = d then ([c], cs)
      else (case upto_delim d cs of (b, rest) \<Rightarrow> (c # b, rest)))"

text \<open>
  \<^verbatim>\<open>(*bufio.Reader).ReadBytes(delim)\<close>: reads until the first occurrence of the delimiter
  and returns the bytes read, the delimiter included; when the stream ends first it
  returns what it read together with the stream's error.
\<close>

definition ReadBytes :: "reader \<Rightarrow> char \<Rightarrow> (string \<times> error option) \<times> reader" where
  "ReadBytes r delim =
     (case upto_delim delim (unread r) of
        (b, rest) \<Rightarrow>
          ((b, if delim \<in> set b then None else Some (ending r)), r\<lparr>unread := rest\<rparr>))"

text \<open>
  \<^verbatim>\<open>(*bufio.Reader).Peek(1)\<close>: the next byte without consuming it, or the stream's error
  when there is none.
\<close>

definition Peek1 :: "reader \<Rightarrow> string \<times> error option" where
  "Peek1 r = (case unread r of [] \<Rightarrow> ([], Some (ending r)) | c # _ \<Rightarrow> ([c], None))"

subsection \<open>Library string functions\<close>

text \<open>
  \<^verbatim>\<open>strings.Replace(s, old, new, -1)\<close> for a non-empty \<open>old\<close> (every call of the decoder
  passes a non-empty literal): all non-overlapping occurrences, found left to right.
\<close>

function Replace :: "string \<Rightarrow> string \<Rightarrow> string \<Rightarrow> string" where
  "Replace s old new =
     (if s = [] \<or> old = [] then s
      else if take (length old) s = old then new @ Replace (drop (length old) s) old new
      else hd s # Replace (tl s) old new)"
  by pat_completeness auto
termination
  by (relation "measure (\<lambda>(s, old, new). length s)") (auto simp: neq_Nil_conv)

declare Replace.simps [simp del]

text \<open>
  \<^verbatim>\<open>strings.SplitN(s, sep, 2)\<close> for a one-byte separator: the text before the first
  separator and the text after it, or the whole string alone when there is none.
\<close>

definition SplitN2 :: "string \<Rightarrow> char \<Rightarrow> string list" where
  "SplitN2 s c =
     (if c \<in> set s then [takeWhile (\<lambda>x. x \<noteq> c) s, tl (dropWhile (\<lambda>x. x \<noteq> c) s)]
      else [s])"

text \<open>\<^verbatim>\<open>strings.Trim(s, cutset)\<close>: leading and trailing bytes of the cutset removed.\<close>

definition Trim :: "string \<Rightarrow> string \<Rightarrow> string" where
  "Trim s cutset =
     rev (dropWhile (\<lambda>x. x \<in> set cutset) (rev (dropWhile (\<lambda>x. x \<in> set cutset) s)))"

subsection \<open>UnescapeText\<close>

definition UnescapeText :: "string \<Rightarrow> string" where
  "UnescapeText s0 =
     (let s1 = Replace s0 [bsl, CHR '';''] '';'';
          s2 = Replace s1 [bsl, CHR '',''] '','';
          s3 = Replace s2 [bsl, CHR ''n''] [nl];
          s4 = Replace s3 [bsl, bsl] [bsl];
          s5 = Replace s4 [nl] '' '';
          s6 = Replace s5 ''&nbsp'' '' ''
      in s6)"

subsection \<open>decodeLine\<close>

text \<open>
  The \<^verbatim>\<open>for !done\<close> loop of \<^verbatim>\<open>decodeLine\<close>, with the buffer it fills. It returns the
  buffer, or the read error of the loop's own \<^verbatim>\<open>return "", "", err\<close>.
\<close>

function decodeLine_loop :: "reader \<Rightarrow> string \<Rightarrow> (string \<times> error option) \<times> reader" where
  "decodeLine_loop r buf =
     (case ReadBytes r nl of
        ((b, err), r1) \<Rightarrow>
          if err \<noteq> None \<and> err \<noteq> Some EOF then (([], err), r1)
          else
            let done = (err = Some EOF) in
            if length b = 0 then
              (if done then ((buf, None), r1) else decodeLine_loop r1 buf)
            else
              let b1 = (if hd b = sp then tl b else b);
                  buf1 = buf @ b1
              in (case Peek1 r1 of
                    (p, perr) \<Rightarrow>
                      if perr \<noteq> None then ((buf1, None), r1)
                      else if hd p \<noteq> sp then ((buf1, None), r1)
                      else if done then ((buf1, None), r1)
                      else decodeLine_loop r1 buf1))"
  by pat_completeness auto

lemma upto_delim_length:
  "upto_delim d s = (b, rest) \<Longrightarrow> length b + length rest = length s"
  by (induction s arbitrary: b rest) (auto split: if_splits prod.splits)

lemma upto_delim_empty:
  "upto_delim d s = ([], rest) \<Longrightarrow> s = [] \<and> rest = []"
  by (cases s) (auto split: if_splits prod.splits)

lemma ReadBytes_shorter:
  assumes "ReadBytes r d = ((b, err), r1)" and "b \<noteq> []"
  shows "length (unread r1) < length (unread r)"
proof -
  obtain rest where u: "upto_delim d (unread r) = (b, rest)" and r1: "r1 = r\<lparr>unread := rest\<rparr>"
    using assms(1) by (auto simp: ReadBytes_def split: prod.splits)
  from assms(2) obtain x xs where "b = x # xs" by (cases b) auto
  with upto_delim_length[OF u] r1 show ?thesis by auto
qed

lemma ReadBytes_no_error:
  assumes "ReadBytes r d = ((b, None), r1)"
  shows "b \<noteq> []"
  using assms by (auto simp: ReadBytes_def split: prod.splits if_splits)

termination decodeLine_loop
proof (relation "measure (\<lambda>(r, buf). length (unread r))", goal_cases)
  case 1
  show ?case by simp
next
  case (2 r buf x1 r1 b err)
  then show ?case
    using ReadBytes_no_error[of r nl b r1] by auto
next
  case (3 r buf x1 r1 b err)
  then show ?case
    using ReadBytes_shorter[of r nl b err r1] by auto
qed

declare decodeLine_loop.simps [simp del]

text \<open>One pass through the loop body, once the raw line has been read.\<close>

lemma decodeLine_loop_unfold:
  assumes "ReadBytes r nl = ((b, err), r1)"
  shows "decodeLine_loop r buf =
           (if err \<noteq> None \<and> err \<noteq> Some EOF then (([], err), r1)
            else if length b = 0 then
              (if err = Some EOF then ((buf, None), r1) else decodeLine_loop r1 buf)
            else
              (case Peek1 r1 of
                 (p, perr) \<Rightarrow>
                   if perr \<noteq> None then ((buf @ (if hd b = sp then tl b else b), None), r1)
                   else if hd p \<noteq> sp then ((buf @ (if hd b = sp then tl b else b), None), r1)
                   else if err = Some EOF then
                     ((buf @ (if hd b = sp then tl b else b), None), r1)
                   else decodeLine_loop r1 (buf @ (if hd b = sp then tl b else b))))"
  by (subst decodeLine_loop.simps) (simp add: assms Let_def)

lemma ReadBytes_le:
  "ReadBytes r d = ((b, err), r1) \<Longrightarrow> length (unread r1) \<le> length (unread r)"
  using upto_delim_length[of d "unread r"]
  by (auto simp: ReadBytes_def split: prod.splits)

lemma decodeLine_loop_le:
  "decodeLine_loop r buf = (res, r') \<Longrightarrow> length (unread r') \<le> length (unread r)"
proof (induction "length (unread r)" arbitrary: r buf res r' rule: less_induct)
  case less
  obtain b err r1 where rb: "ReadBytes r nl = ((b, err), r1)"
    by (metis prod.exhaust)
  note le1 = ReadBytes_le[OF rb]
  note unf = decodeLine_loop_unfold[OF rb, of buf]
  show ?case
  proof (cases "b = []")
    case True
    with ReadBytes_no_error[of r nl b r1] rb have "err \<noteq> None" by auto
    with True less.prems unf le1 show ?thesis by (auto split: if_splits)
  next
    case False
    note lt = ReadBytes_shorter[OF rb False]
    have rec: "\<And>buf1 res r'. decodeLine_loop r1 buf1 = (res, r')
                 \<Longrightarrow> length (unread r') \<le> length (unread r)"
      using less.hyps[OF lt] lt by fastforce
    from False less.prems unf le1 rec show ?thesis
      by (auto split: if_splits prod.splits)
  qed
qed

lemma decodeLine_loop_progress:
  assumes a: "decodeLine_loop r buf = ((buf', None), r')" and n: "buf' \<noteq> buf"
  shows "length (unread r') < length (unread r)"
proof -
  obtain b err r1 where rb: "ReadBytes r nl = ((b, err), r1)"
    by (metis prod.exhaust)
  note unf = decodeLine_loop_unfold[OF rb, of buf]
  show ?thesis
  proof (cases "b = []")
    case True
    with ReadBytes_no_error[of r nl b r1] rb have "err \<noteq> None" by auto
    with True a n unf show ?thesis by (auto split: if_splits)
  next
    case False
    note lt = ReadBytes_shorter[OF rb False]
    have rec: "\<And>buf1 res r'. decodeLine_loop r1 buf1 = (res, r')
                 \<Longrightarrow> length (unread r') < length (unread r)"
      using decodeLine_loop_le lt by fastforce
    from False a unf lt rec show ?thesis
      by (auto split: if_splits prod.splits)
  qed
qed

text \<open>
  \<^verbatim>\<open>decodeLine\<close> returns Go's triple \<^verbatim>\<open>(key, value, err)\<close> and the reader as it leaves it.
\<close>

definition decodeLine :: "reader \<Rightarrow> bool \<Rightarrow> (string \<times> string \<times> error option) \<times> reader" where
  "decodeLine r removeCRLF =
     (case decodeLine_loop r [] of
        ((buf, lerr), r1) \<Rightarrow>
          if lerr \<noteq> None then (([], [], lerr), r1)
          else
            let p = SplitN2 buf (CHR '':'') in
            if length p \<noteq> 2 then (([], [], Some BadLine), r1)
            else if \<not> removeCRLF then
              ((Trim (p ! 0) [sp], Trim (p ! 1) [sp], None), r1)
            else
              ((Trim (p ! 0) [sp, cr, nl], Trim (p ! 1) [sp, cr, nl], None), r1))"

text \<open>
  A call of \<^verbatim>\<open>decodeLine\<close> either consumes at least one byte, or fails and returns
  the empty key and value.
\<close>

lemma decodeLine_cases:
  assumes "decodeLine r f = ((k, v, err), r')"
  shows "(err = None \<and> length (unread r') < length (unread r)) \<or>
         (err \<noteq> None \<and> k = [] \<and> v = [] \<and> length (unread r') \<le> length (unread r))"
proof -
  obtain buf lerr r1 where l: "decodeLine_loop r [] = ((buf, lerr), r1)"
    by (metis prod.exhaust)
  note le = decodeLine_loop_le[OF l]
  show ?thesis
  proof (cases "lerr = None \<and> length (SplitN2 buf (CHR '':'')) = 2")
    case True
    then have "buf \<noteq> []" by (auto simp: SplitN2_def split: if_splits)
    with True l have "length (unread r1) < length (unread r)"
      using decodeLine_loop_progress[of r "[]" buf r1] by auto
    with True l assms show ?thesis
      by (auto simp: decodeLine_def Let_def split: if_splits)
  next
    case False
    with l le assms show ?thesis
      by (auto simp: decodeLine_def Let_def split: if_splits)
  qed
qed

subsection \<open>Dates\<close>

text \<open>
  Every \<^verbatim>\<open>time.Time\<close> the decoder handles is either the zero value or the result of
  \<^verbatim>\<open>time.Parse\<close> with the layout \<^verbatim>\<open>"20060102"\<close>: midnight UTC of a calendar day. Such a
  value is its year, month and day; the zero \<^verbatim>\<open>time.Time{}\<close> is January 1 of year 1.
\<close>

record time =
  year :: nat
  month :: nat
  day :: nat

definition zero_Time :: time where
  "zero_Time = \<lparr>year = 1, month = 1, day = 1\<rparr>"

definition IsZero :: "time \<Rightarrow> bool" where
  "IsZero t = (t = zero_Time)"

definition Before :: "time \<Rightarrow> time \<Rightarrow> bool" where
  "Before t u =
     (year t < year u \<or> (year t = year u \<and>
       (month t < month u \<or> (month t = month u \<and> day t < day u))))"

definition isDigit :: "char \<Rightarrow> bool" where
  "isDigit c = (48 \<le> (of_char c :: nat) \<and> (of_char c :: nat) \<le> 57)"

definition atoi :: "string \<Rightarrow> nat" where
  "atoi ds = foldl (\<lambda>n c. 10 * n + ((of_char c :: nat) - 48)) 0 ds"

definition isLeap :: "nat \<Rightarrow> bool" where
  "isLeap y = (y mod 4 = 0 \<and> (y mod 100 \<noteq> 0 \<or> y mod 400 = 0))"

definition daysIn :: "nat \<Rightarrow> nat \<Rightarrow> nat" where
  "daysIn m y =
     (if m = 2 then (if isLeap y then 29 else 28)
      else if m = 4 \<or> m = 6 \<or> m = 9 \<or> m = 11 then 30
      else 31)"

text \<open>
  \<^verbatim>\<open>time.Parse("20060102", v)\<close>: four year digits, two month digits, two day digits and
  nothing else; the month must be 1 to 12 and the day must exist in that month. Every
  failure is a \<^verbatim>\<open>*time.ParseError\<close>, returned with the zero time.
\<close>

definition Parse_20060102 :: "string \<Rightarrow> time \<times> error option" where
  "Parse_20060102 v =
     (if length v = 8 \<and> list_all isDigit v then
        let y = atoi (take 4 v);
            m = atoi (take 2 (drop 4 v));
            d = atoi (drop 6 v)
        in if m < 1 \<or> 12 < m then (zero_Time, Some ParseError)
           else if d < 1 \<or> daysIn m y < d then (zero_Time, Some ParseError)
           else (\<lparr>year = y, month = m, day = d\<rparr>, None)
      else (zero_Time, Some ParseError))"

definition decodeDate :: "string \<Rightarrow> time \<times> error option" where
  "decodeDate v =
     (if length v < 8 then (zero_Time, None)
      else Parse_20060102 (take 8 v))"

subsection \<open>Events and calendars\<close>

record event =
  UID :: string
  Start :: time
  End :: time
  Summary :: string
  Location :: string
  Description :: string

record calendar =
  Event :: "event list"

text \<open>\<^verbatim>\<open>new(Event)\<close> and \<^verbatim>\<open>new(Calendar)\<close>: every field at its zero value.\<close>

definition new_Event :: event where
  "new_Event = \<lparr>UID = [], Start = zero_Time, End = zero_Time,
                 Summary = [], Location = [], Description = []\<rparr>"

definition new_Calendar :: calendar where
  "new_Calendar = \<lparr>Event = []\<rparr>"

subsection \<open>decodeEvent\<close>

text \<open>
  The loop of \<^verbatim>\<open>decodeEvent\<close> over its variables \<^verbatim>\<open>e\<close> and \<^verbatim>\<open>err\<close>. The result
  \<open>Inr e\<close> is \<^verbatim>\<open>return e, nil\<close> and \<open>Inl err\<close> is \<^verbatim>\<open>return nil, err\<close>. The \<^verbatim>\<open>switch\<close>
  leaves the loop only at \<^verbatim>\<open>END:VEVENT\<close>; every other case goes to the next iteration
  with the event and the error it has assigned.
\<close>

function decodeEvent_loop ::
  "bool \<Rightarrow> event \<Rightarrow> error option \<Rightarrow> reader \<Rightarrow> (error + event) \<times> reader" where
  "decodeEvent_loop removeCRLF e err r =
     (case err of
        Some x \<Rightarrow> (if x = EOF then (Inr e, r) else (Inl x, r))
      | None \<Rightarrow>
        (case decodeLine r removeCRLF of
           ((key0, value0, err1), r1) \<Rightarrow>
             let key1 = (if length key0 \<ge> 7 \<and> take 7 key0 = ''DTSTART'' then ''DTSTART'' else key0);
                 key = (if length key1 \<ge> 5 \<and> take 5 key1 = ''DTEND'' then ''DTEND'' else key1);
                 val = UnescapeText value0
             in if key = ''END'' \<and> val = ''VEVENT'' then (Inr e, r1)
                else
                  (case
                     (if key = ''END'' then (e, err1)
                      else if key = ''UID'' then (e\<lparr>UID := val\<rparr>, err1)
                      else if key = ''DTSTART'' then
                        (case decodeDate val of (t, derr) \<Rightarrow> (e\<lparr>Start := t\<rparr>, derr))
                      else if key = ''DTSTART;VALUE=DATE'' then
                        (case decodeDate val of (t, derr) \<Rightarrow> (e\<lparr>Start := t\<rparr>, derr))
                      else if key = ''DTEND'' then
                        (case decodeDate val of (t, derr) \<Rightarrow> (e\<lparr>End := t\<rparr>, derr))
                      else if key = ''DTEND;VALUE=DATE'' then
                        (case decodeDate val of (t, derr) \<Rightarrow> (e\<lparr>End := t\<rparr>, derr))
                      else if key = ''SUMMARY'' then (e\<lparr>Summary := val\<rparr>, err1)
                      else if key = ''LOCATION'' then (e\<lparr>Location := val\<rparr>, err1)
                      else if key = ''DESCRIPTION'' then (e\<lparr>Description := val\<rparr>, err1)
                      else (e, err1))
                   of (e2, err2) \<Rightarrow> decodeEvent_loop removeCRLF e2 err2 r1)))"
  by pat_completeness auto

lemma decodeLine_cases_sym:
  assumes "((k, v, err), r') = decodeLine r f"
  shows "(err = None \<and> length (unread r') < length (unread r)) \<or>
         (err \<noteq> None \<and> k = [] \<and> v = [] \<and> length (unread r') \<le> length (unread r))"
  using decodeLine_cases[OF assms[symmetric]] .

termination decodeEvent_loop
proof (relation "measure (\<lambda>(f, e, err, r). if err \<noteq> None then 0 else Suc (length (unread r)))",
       goal_cases)
  case 1
  show ?case by simp
next
  case 2
  then show ?case
    by (auto dest!: decodeLine_cases_sym)
qed

declare decodeEvent_loop.simps [simp del]

definition decodeEvent :: "reader \<Rightarrow> bool \<Rightarrow> (error + event) \<times> reader" where
  "decodeEvent r removeCRLF = decodeEvent_loop removeCRLF new_Event None r"

text \<open>
  The two key rewrites and the \<^verbatim>\<open>switch\<close> of the loop body, named so that one
  iteration can be stated: the loop, at \<^verbatim>\<open>err == nil\<close>, reads a line, rewrites its key,
  unescapes its value and either returns at \<^verbatim>\<open>END:VEVENT\<close> or goes on with what the
  \<^verbatim>\<open>switch\<close> assigned.
\<close>

definition fixDates :: "string \<Rightarrow> string" where
  "fixDates key0 =
     (let key1 = (if length key0 \<ge> 7 \<and> take 7 key0 = ''DTSTART'' then ''DTSTART'' else key0)
      in if length key1 \<ge> 5 \<and> take 5 key1 = ''DTEND'' then ''DTEND'' else key1)"

definition switch_key :: "string \<Rightarrow> string \<Rightarrow> event \<Rightarrow> error option \<Rightarrow> event \<times> error option" where
  "switch_key key val e err1 =
     (if key = ''END'' then (e, err1)
      else if key = ''UID'' then (e\<lparr>UID := val\<rparr>, err1)
      else if key = ''DTSTART'' then
        (case decodeDate val of (t, derr) \<Rightarrow> (e\<lparr>Start := t\<rparr>, derr))
      else if key = ''DTSTART;VALUE=DATE'' then
        (case decodeDate val of (t, derr) \<Rightarrow> (e\<lparr>Start := t\<rparr>, derr))
      else if key = ''DTEND'' then
        (case decodeDate val of (t, derr) \<Rightarrow> (e\<lparr>End := t\<rparr>, derr))
      else if key = ''DTEND;VALUE=DATE'' then
        (case decodeDate val of (t, derr) \<Rightarrow> (e\<lparr>End := t\<rparr>, derr))
      else if key = ''SUMMARY'' then (e\<lparr>Summary := val\<rparr>, err1)
      else if key = ''LOCATION'' then (e\<lparr>Location := val\<rparr>, err1)
      else if key = ''DESCRIPTION'' then (e\<lparr>Description := val\<rparr>, err1)
      else (e, err1))"

lemma decodeEvent_loop_Some:
  "decodeEvent_loop f e (Some x) r = (if x = EOF then (Inr e, r) else (Inl x, r))"
  by (subst decodeEvent_loop.simps) simp

lemma decodeEvent_loop_None:
  assumes "decodeLine r f = ((key0, value0, err1), r1)"
  shows "decodeEvent_loop f e None r =
           (if fixDates key0 = ''END'' \<and> UnescapeText value0 = ''VEVENT'' then (Inr e, r1)
            else (case switch_key (fixDates key0) (UnescapeText value0) e err1 of
                    (e2, err2) \<Rightarrow> decodeEvent_loop f e2 err2 r1))"
  by (subst decodeEvent_loop.simps)
     (simp only: assms option.case prod.case Let_def fixDates_def switch_key_def)

lemma decodeEvent_loop_le:
  "decodeEvent_loop f e err r = (res, r') \<Longrightarrow> length (unread r') \<le> length (unread r)"
proof (induction "if err \<noteq> None then 0 else Suc (length (unread r))"
         arbitrary: e err r rule: less_induct)
  case less
  show ?case
  proof (cases err)
    case (Some x)
    with less.prems show ?thesis
      by (auto simp: decodeEvent_loop_Some split: if_splits)
  next
    case None
    obtain key0 value0 err1 r1 where dl: "decodeLine r f = ((key0, value0, err1), r1)"
      by (metis prod.exhaust)
    note step = decodeEvent_loop_None[OF dl, of e]
    from decodeLine_cases[OF dl] have le1: "length (unread r1) \<le> length (unread r)" by auto
    show ?thesis
    proof (cases "fixDates key0 = ''END'' \<and> UnescapeText value0 = ''VEVENT''")
      case True
      with less.prems None step le1 show ?thesis by auto
    next
      case False
      obtain e2 err2 where sw: "switch_key (fixDates key0) (UnescapeText value0) e err1 = (e2, err2)"
        by (metis prod.exhaust)
      with False less.prems None step
      have rec: "decodeEvent_loop f e2 err2 r1 = (res, r')" by auto
      have "(if err2 \<noteq> None then 0 else Suc (length (unread r1)))
              < (if err \<noteq> None then 0 else Suc (length (unread r)))"
      proof (cases "err1 = None")
        case True
        with decodeLine_cases[OF dl] None show ?thesis by auto
      next
        case False
        with decodeLine_cases[OF dl] have "key0 = []" by auto
        with sw have "err2 = err1" by (simp add: fixDates_def switch_key_def)
        with False None show ?thesis by auto
      qed
      from less.hyps[OF this rec] le1 show ?thesis by simp
    qed
  qed
qed

lemma decodeEvent_le_sym:
  assumes "(res, r') = decodeEvent r f"
  shows "length (unread r') \<le> length (unread r)"
  using decodeEvent_loop_le[of f new_Event None r res r'] assms
  by (simp add: decodeEvent_def)

subsection \<open>The order of events\<close>

text \<open>\<^verbatim>\<open>eventList\<close>: the three methods of \<^verbatim>\<open>sort.Interface\<close>.\<close>

definition eventList_Less :: "event list \<Rightarrow> nat \<Rightarrow> nat \<Rightarrow> bool" where
  "eventList_Less l i j =
     (if IsZero (Start (l ! i)) then True
      else if IsZero (Start (l ! j)) then False
      else Before (Start (l ! i)) (Start (l ! j)))"

definition eventList_Swap :: "event list \<Rightarrow> nat \<Rightarrow> nat \<Rightarrow> event list" where
  "eventList_Swap l i j = l[i := l ! j, j := l ! i]"

definition eventList_Len :: "event list \<Rightarrow> nat" where
  "eventList_Len l = length l"

text \<open>
  \<^verbatim>\<open>sort.Sort\<close> belongs to Go's library. It returns at once on fewer than two elements
  and sorts a slice of at most twelve by the library's \<^verbatim>\<open>insertionSort(data, 0, n)\<close>:
  \<^verbatim>\<open>
  for i := a + 1; i < b; i++ {
      for j := i; j > a && data.Less(j, j-1); j-- {
          data.Swap(j, j-1)
      }
  }
  \<close>
  What it does to a longer slice is the parameter \<open>long\<close>.
\<close>

function insertionSort_inner :: "event list \<Rightarrow> nat \<Rightarrow> nat \<Rightarrow> event list" where
  "insertionSort_inner l a j =
     (if j > a \<and> eventList_Less l j (j - 1)
      then insertionSort_inner (eventList_Swap l j (j - 1)) a (j - 1)
      else l)"
  by pat_completeness auto
termination
  by (relation "measure (\<lambda>(l, a, j). j)") auto

declare insertionSort_inner.simps [simp del]

function insertionSort_outer :: "event list \<Rightarrow> nat \<Rightarrow> nat \<Rightarrow> nat \<Rightarrow> event list" where
  "insertionSort_outer l a i b =
     (if i < b then insertionSort_outer (insertionSort_inner l a i) a (i + 1) b else l)"
  by pat_completeness auto
termination
  by (relation "measure (\<lambda>(l, a, i, b). b - i)") auto

declare insertionSort_outer.simps [simp del]

definition insertionSort :: "event list \<Rightarrow> nat \<Rightarrow> nat \<Rightarrow> event list" where
  "insertionSort l a b = insertionSort_outer l a (a + 1) b"

definition sort_Sort :: "(event list \<Rightarrow> event list) \<Rightarrow> event list \<Rightarrow> event list" where
  "sort_Sort long l =
     (let n = eventList_Len l
      in if n \<le> 1 then l
         else if n \<le> 12 then insertionSort l 0 n
         else long l)"

subsection \<open>decode\<close>

text \<open>
  How the \<^verbatim>\<open>for\<close> loop of \<^verbatim>\<open>decode\<close> ends: at a \<^verbatim>\<open>return nil, err\<close>, at the \<^verbatim>\<open>break\<close>
  with the calendar pointer \<^verbatim>\<open>c\<close> as it then is (\<open>None\<close> is \<^verbatim>\<open>nil\<close>), or in the run-time
  panic of a field access through a nil pointer.
\<close>

datatype loop_exit =
    Return_error error
  | Break "calendar option"
  | Nil_dereference

function decode_loop :: "bool \<Rightarrow> calendar option \<Rightarrow> reader \<Rightarrow> loop_exit" where
  "decode_loop removeCRLF c r =
     (case decodeLine r removeCRLF of
        ((key, val, err), r1) \<Rightarrow>
          (case err of
             Some x \<Rightarrow> Return_error x
           | None \<Rightarrow>
               if key = ''BEGIN'' then
                 (if c = None \<and> val \<noteq> ''VCALENDAR'' then Return_error NoBeginVCalendar
                  else
                    let c1 = (if c = None then Some new_Calendar else c) in
                    if val = ''VEVENT'' then
                      (case decodeEvent r1 removeCRLF of
                         (Inl x, r2) \<Rightarrow> Return_error x
                       | (Inr e, r2) \<Rightarrow>
                           (case c1 of
                              None \<Rightarrow> Nil_dereference
                            | Some cal \<Rightarrow>
                                decode_loop removeCRLF
                                  (Some (cal\<lparr>Event := Event cal @ [e]\<rparr>)) r2))
                    else decode_loop removeCRLF c1 r1)
               else if key = ''END'' \<and> val = ''VCALENDAR'' then Break c
               else decode_loop removeCRLF c r1))"
  by pat_completeness auto
termination
proof (relation "measure (\<lambda>(f, c, r). length (unread r))", goal_cases)
  case 1
  show ?case by simp
next
  case 2
  then show ?case
    by (auto dest!: decodeLine_cases_sym decodeEvent_le_sym)
next
  case 3
  then show ?case by (auto dest!: decodeLine_cases_sym)
next
  case 4
  then show ?case by (auto dest!: decodeLine_cases_sym)
qed

declare decode_loop.simps [simp del]

text \<open>
  The result of a call that can panic: it returns Go's pair \<^verbatim>\<open>(c, err)\<close>, as \<open>Inr c\<close> for
  \<^verbatim>\<open>(c, nil)\<close> and \<open>Inl err\<close> for \<^verbatim>\<open>(nil, err)\<close>, or it panics.
\<close>

datatype 'a outcome = Returns 'a | Panics

definition decode ::
  "(event list \<Rightarrow> event list) \<Rightarrow> reader \<Rightarrow> bool \<Rightarrow> (error + calendar) outcome" where
  "decode long rd removeCRLF =
     (case decode_loop removeCRLF None rd of
        Return_error x \<Rightarrow> Returns (Inl x)
      | Nil_dereference \<Rightarrow> Panics
      | Break None \<Rightarrow> Panics
      | Break (Some c) \<Rightarrow> Returns (Inr (c\<lparr>Event := sort_Sort long (Event c)\<rparr>)))"

definition Decode :: "(event list \<Rightarrow> event list) \<Rightarrow> reader \<Rightarrow> (error + calendar) outcome" where
  "Decode long rd = decode long rd True"

definition DecodePreserveCRLF ::
  "(event list \<Rightarrow> event list) \<Rightarrow> reader \<Rightarrow> (error + calendar) outcome" where
  "DecodePreserveCRLF long rd = decode long rd False"

section \<open>The second copy of the decoder\<close>

text \<open>
  The repository holds a second copy of the decoder, without the \<^verbatim>\<open>removeCRLF\<close> flag. It
  differs from \<^verbatim>\<open>decode.go\<close> in three functions: \<^verbatim>\<open>decodeLine\<close> reads with \<^verbatim>\<open>ReadLine\<close>,
  reports the end of the stream as \<^verbatim>\<open>io.ErrUnexpectedEOF\<close> and does not trim;
  \<^verbatim>\<open>decodeDate\<close> has no length guard; and \<^verbatim>\<open>decodeEvent\<close> returns every error. The first
  two are modelled here, under the names \<open>decodeLine2\<close> and \<open>decodeDate2\<close>, to compare
  them with \<^verbatim>\<open>decode.go\<close>.
\<close>

text \<open>
  \<^verbatim>\<open>(*bufio.Reader).ReadLine\<close> on a reader made by \<^verbatim>\<open>bufio.NewReader\<close>, whose buffer holds
  4096 bytes. It returns the next line without its terminator (\<^verbatim>\<open>\n\<close> or \<^verbatim>\<open>\r\n\<close>); when
  the buffer fills before a newline it returns the buffer's bytes with \<^verbatim>\<open>isPrefix\<close> set
  (a carriage return at the buffer's end stays unread); when the stream ends first it
  returns the bytes left, and only with nothing left the stream's error.
\<close>

definition defaultBufSize :: nat where
  "defaultBufSize = 4096"

definition ReadLine :: "reader \<Rightarrow> (string \<times> bool \<times> error option) \<times> reader" where
  "ReadLine r =
     (let u = unread r in
      if u = [] then (([], False, Some (ending r)), r)
      else if nl \<in> set (take defaultBufSize u) then
        (case upto_delim nl u of
           (line, rest) \<Rightarrow>
             let n = (if length line > 1 \<and> line ! (length line - 2) = cr then 2 else 1)
             in ((take (length line - n) line, False, None), r\<lparr>unread := rest\<rparr>))
      else if length u \<ge> defaultBufSize then
        (if u ! (defaultBufSize - 1) = cr then
           ((take (defaultBufSize - 1) u, True, None), r\<lparr>unread := drop (defaultBufSize - 1) u\<rparr>)
         else ((take defaultBufSize u, True, None), r\<lparr>unread := drop defaultBufSize u\<rparr>))
      else ((u, False, None), r\<lparr>unread := []\<rparr>))"

lemma ReadLine_shorter:
  assumes "((b, False, None), r1) = ReadLine r"
  shows "length (unread r1) < length (unread r)"
proof (cases "unread r = []")
  case True
  with assms show ?thesis by (simp add: ReadLine_def)
next
  case False
  show ?thesis
  proof (cases "nl \<in> set (take defaultBufSize (unread r))")
    case True
    obtain line rest where u: "upto_delim nl (unread r) = (line, rest)"
      by (metis prod.exhaust)
    from False u have "line \<noteq> []"
      using upto_delim_empty[of nl "unread r" rest] by auto
    then obtain c cs where "line = c # cs" by (cases line) auto
    with upto_delim_length[OF u] have "length rest < length (unread r)" by simp
    with assms False True u show ?thesis
      by (auto simp: ReadLine_def Let_def split: if_splits)
  next
    case F2: False
    with assms False show ?thesis
      by (auto simp: ReadLine_def Let_def split: if_splits)
  qed
qed

text \<open>The loop of the copy's \<^verbatim>\<open>decodeLine\<close>, and the function itself.\<close>

function decodeLine2_loop :: "reader \<Rightarrow> string \<Rightarrow> (string \<times> error option) \<times> reader" where
  "decodeLine2_loop r buf =
     (case ReadLine r of
        ((b, isPrefix, err), r1) \<Rightarrow>
          (case err of
             Some x \<Rightarrow> (([], Some (if x = EOF then ErrUnexpectedEOF else x)), r1)
           | None \<Rightarrow>
               if isPrefix then (([], Some LongLine), r1)
               else if length b = 0 then decodeLine2_loop r1 buf
               else
                 let b1 = (if hd b = sp then tl b else b);
                     buf1 = buf @ b1
                 in (case Peek1 r1 of
                       (p, perr) \<Rightarrow>
                         if perr \<noteq> None then ((buf1, None), r1)
                         else if hd p \<noteq> sp then ((buf1, None), r1)
                         else decodeLine2_loop r1 buf1)))"
  by pat_completeness auto
termination
proof (relation "measure (\<lambda>(r, buf). length (unread r))", goal_cases)
  case 1
  show ?case by simp
next
  case 2
  then show ?case by (auto dest!: ReadLine_shorter)
next
  case 3
  then show ?case by (auto dest!: ReadLine_shorter)
qed


declare decodeLine2_loop.simps [simp del]

definition decodeLine2 :: "reader \<Rightarrow> (string \<times> string \<times> error option) \<times> reader" where
  "decodeLine2 r =
     (case decodeLine2_loop r [] of
        ((buf, lerr), r1) \<Rightarrow>
          if lerr \<noteq> None then (([], [], lerr), r1)
          else
            let p = SplitN2 buf (CHR '':'') in
            if length p \<noteq> 2 then (([], [], Some BadLine), r1)
            else ((p ! 0, p ! 1, None), r1))"

text \<open>
  The copy's \<^verbatim>\<open>decodeDate\<close> slices \<^verbatim>\<open>value[0:8]\<close> without a guard: the slice expression
  panics on a shorter string.
\<close>

definition decodeDate2 :: "string \<Rightarrow> (time \<times> error option) outcome" where
  "decodeDate2 v =
     (if length v < 8 then Panics
      else Returns (Parse_20060102 (take 8 v)))"

section \<open>Properties\<close>

subsection \<open>Notions used to state them\<close>

text \<open>
  The text made of the given lines, each followed by a newline, or by a carriage return
  and a newline; a remaining input whose
  next byte is not the space that marks a continuation line; a raw line as the loop of
  \<^verbatim>\<open>decodeLine\<close> appends it; and the cutset \<^verbatim>\<open>decodeLine\<close> trims with in either mode.
\<close>

definition unlines :: "string list \<Rightarrow> string" where
  "unlines ls = concat (map (\<lambda>l. l @ [nl]) ls)"

definition crlf_lines :: "string list \<Rightarrow> string" where
  "crlf_lines ls = concat (map (\<lambda>l. l @ [cr, nl]) ls)"

definition no_fold :: "string \<Rightarrow> bool" where
  "no_fold rest = (case rest of [] \<Rightarrow> True | c # cs \<Rightarrow> c \<noteq> sp)"

definition strip_sp :: "string \<Rightarrow> string" where
  "strip_sp b = (if hd b = sp then tl b else b)"

definition cutset :: "bool \<Rightarrow> string" where
  "cutset removeCRLF = (if removeCRLF then [sp, cr, nl] else [sp])"





text \<open>A line as \<^verbatim>\<open>ReadLine\<close> returns it: without the carriage return before the newline.\<close>

definition chomp :: "string \<Rightarrow> string" where
  "chomp line = (if line \<noteq> [] \<and> last line = cr then butlast line else line)"

subsection \<open>Reading newline-terminated lines\<close>

lemmas char_defs = nl_def sp_def cr_def bsl_def

lemma upto_delim_line:
  "d \<notin> set line \<Longrightarrow> upto_delim d (line @ d # rest) = (line @ [d], rest)"
  by (induction line) auto

lemma ReadBytes_line:
  "d \<notin> set line \<Longrightarrow>
   ReadBytes \<lparr>unread = line @ d # rest, ending = x\<rparr> d
     = ((line @ [d], None), \<lparr>unread = rest, ending = x\<rparr>)"
  by (simp add: ReadBytes_def upto_delim_line)

lemma decodeLine_loop_last:
  assumes "nl \<notin> set line" and "no_fold rest"
  shows "decodeLine_loop \<lparr>unread = line @ nl # rest, ending = x\<rparr> buf
           = ((buf @ strip_sp (line @ [nl]), None), \<lparr>unread = rest, ending = x\<rparr>)"
  using assms(2)
  by (subst decodeLine_loop_unfold[OF ReadBytes_line[OF assms(1)]])
     (auto simp: Peek1_def no_fold_def strip_sp_def split: list.splits)

lemma decodeLine_loop_cont:
  assumes "nl \<notin> set line"
  shows "decodeLine_loop \<lparr>unread = line @ nl # sp # rest, ending = x\<rparr> buf
           = decodeLine_loop \<lparr>unread = sp # rest, ending = x\<rparr> (buf @ strip_sp (line @ [nl]))"
  by (subst decodeLine_loop_unfold[OF ReadBytes_line[OF assms(1)]])
     (auto simp: Peek1_def strip_sp_def split: list.splits)

lemma SplitN2_colon:
  "c \<notin> set k \<Longrightarrow> SplitN2 (k @ c # v) c = [k, v]"
  by (induction k) (auto simp: SplitN2_def)

lemma SplitN2_none:
  "c \<notin> set s \<Longrightarrow> SplitN2 s c = [s]"
  by (simp add: SplitN2_def)

lemma decodeLine_of_buffer:
  assumes "decodeLine_loop r [] = ((buf, None), r1)"
  shows "decodeLine r f =
           (case SplitN2 buf (CHR '':'') of
              [k, v] \<Rightarrow> ((Trim k (cutset f), Trim v (cutset f), None), r1)
            | _ \<Rightarrow> (([], [], Some BadLine), r1))"
  by (cases "CHR '':'' \<in> set buf")
     (simp_all add: decodeLine_def assms SplitN2_def cutset_def)

lemma decodeLine_key_value:
  assumes "CHR '':'' \<notin> set k" and "nl \<notin> set k" and "nl \<notin> set v"
    and "hd (k @ [CHR '':'']) \<noteq> sp" and "no_fold rest"
  shows "decodeLine \<lparr>unread = k @ CHR '':'' # v @ nl # rest, ending = x\<rparr> f
           = ((Trim k (cutset f), Trim (v @ [nl]) (cutset f), None),
              \<lparr>unread = rest, ending = x\<rparr>)"
proof -
  have n: "nl \<notin> set (k @ CHR '':'' # v)"
    using assms(2,3) by (simp add: nl_def)
  have s: "strip_sp ((k @ CHR '':'' # v) @ [nl]) = k @ CHR '':'' # v @ [nl]"
    using assms(4) by (cases k) (simp_all add: strip_sp_def)
  have "decodeLine_loop \<lparr>unread = (k @ CHR '':'' # v) @ nl # rest, ending = x\<rparr> []
          = ((k @ CHR '':'' # v @ [nl], None), \<lparr>unread = rest, ending = x\<rparr>)"
    using decodeLine_loop_last[OF n assms(5), of x "[]"] s by simp
  then have "decodeLine_loop \<lparr>unread = k @ CHR '':'' # v @ nl # rest, ending = x\<rparr> []
          = ((k @ CHR '':'' # v @ [nl], None), \<lparr>unread = rest, ending = x\<rparr>)"
    by simp
  from decodeLine_of_buffer[OF this, of f] show ?thesis
    by (simp add: SplitN2_colon[OF assms(1)])
qed

lemma decodeLine_property_line:
  assumes "t = [nl] \<or> t = [cr, nl]"
    and "CHR '':'' \<notin> set k" and "nl \<notin> set k" and "nl \<notin> set v"
    and "hd (k @ [CHR '':'']) \<noteq> sp" and "no_fold rest"
  shows "decodeLine \<lparr>unread = k @ CHR '':'' # v @ t @ rest, ending = x\<rparr> f
           = ((Trim k (cutset f), Trim (v @ t) (cutset f), None),
              \<lparr>unread = rest, ending = x\<rparr>)"
proof -
  have n: "nl \<notin> set (v @ [cr])" using assms(4) by (simp add: char_defs)
  from assms(1) show ?thesis
  proof
    assume "t = [nl]"
    with decodeLine_key_value[OF assms(2,3,4,5,6), of x f] show ?thesis by simp
  next
    assume "t = [cr, nl]"
    with decodeLine_key_value[OF assms(2,3) n assms(5,6), of x f] show ?thesis by simp
  qed
qed

lemma decode_loop_step:
  assumes "decodeLine r f = ((key, v, None), r1)"
  shows "decode_loop f c r =
           (if key = ''BEGIN'' then
              (if c = None \<and> v \<noteq> ''VCALENDAR'' then Return_error NoBeginVCalendar
               else if v = ''VEVENT'' then
                 (case decodeEvent r1 f of
                    (Inl x, r2) \<Rightarrow> Return_error x
                  | (Inr e, r2) \<Rightarrow>
                      (case (if c = None then Some new_Calendar else c) of
                         None \<Rightarrow> Nil_dereference
                       | Some cal \<Rightarrow>
                           decode_loop f (Some (cal\<lparr>Event := Event cal @ [e]\<rparr>)) r2))
               else decode_loop f (if c = None then Some new_Calendar else c) r1)
            else if key = ''END'' \<and> v = ''VCALENDAR'' then Break c
            else decode_loop f c r1)"
  by (subst decode_loop.simps) (simp add: assms Let_def)

lemma decode_loop_error:
  assumes "decodeLine r f = ((key, v, Some x), r1)"
  shows "decode_loop f c r = Return_error x"
  by (subst decode_loop.simps) (simp add: assms)

lemma Replace_length:
  "length new \<le> length old \<Longrightarrow> length (Replace s old new) \<le> length s"
proof (induction s old new rule: Replace.induct)
  case (1 s old new)
  show ?case
  proof (cases "s = [] \<or> old = []")
    case True
    then show ?thesis by (subst Replace.simps) simp
  next
    case False
    show ?thesis
    proof (cases "take (length old) s = old")
      case True
      have "length (take (length old) s) \<le> length s" by simp
      with True have le: "length old \<le> length s" by simp
      have "length (Replace (drop (length old) s) old new) \<le> length s - length old"
        using "1.IH"(1)[OF False True "1.prems"] by simp
      with le "1.prems" False True show ?thesis
        by (subst Replace.simps) simp
    next
      case F2: False
      have "length (Replace (tl s) old new) \<le> length s - 1"
        using "1.IH"(2)[OF False F2 "1.prems"] by simp
      with False F2 show ?thesis
        by (subst Replace.simps) (cases s, auto)
    qed
  qed
qed

lemma UnescapeText_length: "length (UnescapeText s) \<le> length s"
proof -
  let ?s1 = "Replace s [bsl, CHR '';''] '';''"
  let ?s2 = "Replace ?s1 [bsl, CHR '',''] '',''"
  let ?s3 = "Replace ?s2 [bsl, CHR ''n''] [nl]"
  let ?s4 = "Replace ?s3 [bsl, bsl] [bsl]"
  let ?s5 = "Replace ?s4 [nl] '' ''"
  let ?s6 = "Replace ?s5 ''&nbsp'' '' ''"
  have "length ?s6 \<le> length ?s5" by (rule Replace_length) simp
  also have "\<dots> \<le> length ?s4" by (rule Replace_length) simp
  also have "\<dots> \<le> length ?s3" by (rule Replace_length) simp
  also have "\<dots> \<le> length ?s2" by (rule Replace_length) simp
  also have "\<dots> \<le> length ?s1" by (rule Replace_length) simp
  also have "\<dots> \<le> length s" by (rule Replace_length) simp
  finally show ?thesis by (simp add: UnescapeText_def Let_def)
qed

lemma sort_Sort_single: "sort_Sort long [e] = [e]"
  by (simp add: sort_Sort_def eventList_Len_def)

subsection \<open>The minimal calendar\<close>

text \<open>
  C1. \<^verbatim>\<open>Decode\<close> of the eight lines \<^verbatim>\<open>BEGIN:VCALENDAR\<close>, \<^verbatim>\<open>BEGIN:VEVENT\<close>, \<^verbatim>\<open>UID:1@test\<close>,
  \<^verbatim>\<open>DTSTART:20230101\<close>, \<^verbatim>\<open>DTEND:20230102\<close>, \<^verbatim>\<open>SUMMARY:Test\<close>, \<^verbatim>\<open>END:VEVENT\<close>,
  \<^verbatim>\<open>END:VCALENDAR\<close> returns, without error, a calendar of exactly one event, whose UID
  is \<^verbatim>\<open>1@test\<close>, whose Start is 2023-01-01, whose End is 2023-01-02 and whose Summary is
  \<^verbatim>\<open>Test\<close>. This holds with every line ended by a newline and with every line ended by
  a carriage return and a newline, whatever the stream reports after its last byte and
  whatever the library's sort does to long slices.
\<close>

theorem decode_minimal:
  "Decode long \<lparr>unread = unlines [''BEGIN:VCALENDAR'', ''BEGIN:VEVENT'', ''UID:1@test'',
       ''DTSTART:20230101'', ''DTEND:20230102'', ''SUMMARY:Test'', ''END:VEVENT'',
       ''END:VCALENDAR''], ending = x\<rparr>
     = Returns (Inr \<lparr>Event = [\<lparr>UID = ''1@test'',
                                  Start = \<lparr>year = 2023, month = 1, day = 1\<rparr>,
                                  End = \<lparr>year = 2023, month = 1, day = 2\<rparr>,
                                  Summary = ''Test'', Location = [], Description = []\<rparr>]\<rparr>) \<and>
   Decode long \<lparr>unread = crlf_lines [''BEGIN:VCALENDAR'', ''BEGIN:VEVENT'', ''UID:1@test'',
       ''DTSTART:20230101'', ''DTEND:20230102'', ''SUMMARY:Test'', ''END:VEVENT'',
       ''END:VCALENDAR''], ending = x\<rparr>
     = Returns (Inr \<lparr>Event = [\<lparr>UID = ''1@test'',
                                  Start = \<lparr>year = 2023, month = 1, day = 1\<rparr>,
                                  End = \<lparr>year = 2023, month = 1, day = 2\<rparr>,
                                  Summary = ''Test'', Location = [], Description = []\<rparr>]\<rparr>)"
proof -
  let ?E = "\<lparr>UID = ''1@test'', Start = \<lparr>year = 2023, month = 1, day = 1\<rparr>,
             End = \<lparr>year = 2023, month = 1, day = 2\<rparr>,
             Summary = ''Test'', Location = [], Description = []\<rparr>"
  have main: "Decode long \<lparr>unread = concat (map (\<lambda>l. l @ t) [''BEGIN:VCALENDAR'',
       ''BEGIN:VEVENT'', ''UID:1@test'', ''DTSTART:20230101'', ''DTEND:20230102'',
       ''SUMMARY:Test'', ''END:VEVENT'', ''END:VCALENDAR'']), ending = x\<rparr>
     = Returns (Inr \<lparr>Event = [?E]\<rparr>)"
    if t: "t = [nl] \<or> t = [cr, nl]" for t
  proof -
    define R8 where "R8 = ([] :: string)"
    define R7 where "R7 = ''END'' @ CHR '':'' # ''VCALENDAR'' @ t @ R8"
    define R6 where "R6 = ''END'' @ CHR '':'' # ''VEVENT'' @ t @ R7"
    define R5 where "R5 = ''SUMMARY'' @ CHR '':'' # ''Test'' @ t @ R6"
    define R4 where "R4 = ''DTEND'' @ CHR '':'' # ''20230102'' @ t @ R5"
    define R3 where "R3 = ''DTSTART'' @ CHR '':'' # ''20230101'' @ t @ R4"
    define R2 where "R2 = ''UID'' @ CHR '':'' # ''1@test'' @ t @ R3"
    define R1 where "R1 = ''BEGIN'' @ CHR '':'' # ''VEVENT'' @ t @ R2"
    define R0 where "R0 = ''BEGIN'' @ CHR '':'' # ''VCALENDAR'' @ t @ R1"
    note Rs = R0_def R1_def R2_def R3_def R4_def R5_def R6_def R7_def R8_def
    have nf: "no_fold R1" "no_fold R2" "no_fold R3" "no_fold R4" "no_fold R5" "no_fold R6"
      "no_fold R7" "no_fold R8"
      by (simp_all add: no_fold_def Rs sp_def)
    have tr: "Trim (''VCALENDAR'' @ t) (cutset True) = ''VCALENDAR''"
      "Trim (''VEVENT'' @ t) (cutset True) = ''VEVENT''"
      "Trim (''1@test'' @ t) (cutset True) = ''1@test''"
      "Trim (''20230101'' @ t) (cutset True) = ''20230101''"
      "Trim (''20230102'' @ t) (cutset True) = ''20230102''"
      "Trim (''Test'' @ t) (cutset True) = ''Test''"
      using t by (auto simp: Trim_def cutset_def char_defs)
    have tk: "Trim ''BEGIN'' (cutset True) = ''BEGIN''" "Trim ''END'' (cutset True) = ''END''"
      "Trim ''UID'' (cutset True) = ''UID''" "Trim ''DTSTART'' (cutset True) = ''DTSTART''"
      "Trim ''DTEND'' (cutset True) = ''DTEND''" "Trim ''SUMMARY'' (cutset True) = ''SUMMARY''"
      by (simp_all add: Trim_def cutset_def char_defs)
    let ?rd = "\<lambda>R. \<lparr>unread = R, ending = x\<rparr>"
    have d0: "decodeLine (?rd R0) True = ((''BEGIN'', ''VCALENDAR'', None), ?rd R1)"
      unfolding R0_def
      by (subst decodeLine_property_line[OF t]) (simp_all add: nf tr[simplified] tk char_defs)
    have d1: "decodeLine (?rd R1) True = ((''BEGIN'', ''VEVENT'', None), ?rd R2)"
      unfolding R1_def
      by (subst decodeLine_property_line[OF t]) (simp_all add: nf tr[simplified] tk char_defs)
    have d2: "decodeLine (?rd R2) True = ((''UID'', ''1@test'', None), ?rd R3)"
      unfolding R2_def
      by (subst decodeLine_property_line[OF t]) (simp_all add: nf tr[simplified] tk char_defs)
    have d3: "decodeLine (?rd R3) True = ((''DTSTART'', ''20230101'', None), ?rd R4)"
      unfolding R3_def
      by (subst decodeLine_property_line[OF t]) (simp_all add: nf tr[simplified] tk char_defs)
    have d4: "decodeLine (?rd R4) True = ((''DTEND'', ''20230102'', None), ?rd R5)"
      unfolding R4_def
      by (subst decodeLine_property_line[OF t]) (simp_all add: nf tr[simplified] tk char_defs)
    have d5: "decodeLine (?rd R5) True = ((''SUMMARY'', ''Test'', None), ?rd R6)"
      unfolding R5_def
      by (subst decodeLine_property_line[OF t]) (simp_all add: nf tr[simplified] tk char_defs)
    have d6: "decodeLine (?rd R6) True = ((''END'', ''VEVENT'', None), ?rd R7)"
      unfolding R6_def
      by (subst decodeLine_property_line[OF t]) (simp_all add: nf tr[simplified] tk char_defs)
    have d7: "decodeLine (?rd R7) True = ((''END'', ''VCALENDAR'', None), ?rd R8)"
      unfolding R7_def
      by (subst decodeLine_property_line[OF t]) (simp_all add: nf tr[simplified] tk char_defs)
    have u: "UnescapeText ''1@test'' = ''1@test''" "UnescapeText ''20230101'' = ''20230101''"
      "UnescapeText ''20230102'' = ''20230102''" "UnescapeText ''Test'' = ''Test''"
      "UnescapeText ''VEVENT'' = ''VEVENT''"
      by code_simp+
    have dd: "decodeDate ''20230101'' = (\<lparr>year = 2023, month = 1, day = 1\<rparr>, None)"
      "decodeDate ''20230102'' = (\<lparr>year = 2023, month = 1, day = 2\<rparr>, None)"
      by code_simp+
    have ev: "decodeEvent (?rd R2) True = (Inr ?E, ?rd R7)"
      unfolding decodeEvent_def
      by (simp add: decodeEvent_loop_None[OF d2] decodeEvent_loop_None[OF d3]
            decodeEvent_loop_None[OF d4] decodeEvent_loop_None[OF d5]
            decodeEvent_loop_None[OF d6] u dd fixDates_def switch_key_def new_Event_def
            zero_Time_def)
    have "decode_loop True None (?rd R0) = Break (Some \<lparr>Event = [?E]\<rparr>)"
      by (simp add: decode_loop_step[OF d0] decode_loop_step[OF d1] decode_loop_step[OF d7] ev
            new_Calendar_def)
    moreover have "concat (map (\<lambda>l. l @ t) [''BEGIN:VCALENDAR'', ''BEGIN:VEVENT'',
         ''UID:1@test'', ''DTSTART:20230101'', ''DTEND:20230102'', ''SUMMARY:Test'',
         ''END:VEVENT'', ''END:VCALENDAR'']) = R0"
      by (simp add: Rs)
    ultimately show ?thesis
      by (simp add: Decode_def decode_def sort_Sort_single)
  qed
  from main[of "[nl]"] main[of "[cr, nl]"] show ?thesis
    by (simp add: unlines_def crlf_lines_def)
qed

subsection \<open>UnescapeText\<close>

text \<open>
  C7. \<^verbatim>\<open>UnescapeText\<close> maps \<^verbatim>\<open>A\;B\,C\<close> to \<^verbatim>\<open>A;B,C\<close>; it maps \<^verbatim>\<open>Line1\<close>, backslash,
  \<^verbatim>\<open>nLine2\<close> to \<^verbatim>\<open>Line1 Line2\<close> (the escape becomes a newline, the newline a space); and
  it maps \<^verbatim>\<open>a&nbspb\<close> to \<^verbatim>\<open>a b\<close>.
\<close>

theorem UnescapeText_examples:
  "UnescapeText (''A'' @ [bsl] @ '';B'' @ [bsl] @ '',C'') = ''A;B,C'' \<and>
   UnescapeText (''Line1'' @ [bsl] @ ''nLine2'') = ''Line1 Line2'' \<and>
   UnescapeText ''a&nbspb'' = ''a b''"
  by code_simp

subsection \<open>A line without a colon\<close>

text \<open>
  C9. When the logical line that \<^verbatim>\<open>decodeLine\<close> assembles holds no colon, \<^verbatim>\<open>decodeLine\<close>
  fails with the "bad line" error, and the error is fatal wherever the line is read:
  the top-level loop returns it whatever calendar it holds; the event loop returns it
  whatever event it has filled; a \<^verbatim>\<open>decode\<close> loop whose \<^verbatim>\<open>BEGIN:VEVENT\<close> started the event
  decoding that reaches the line returns it; and a \<^verbatim>\<open>decode\<close> call whose loop reaches
  the line returns the error and no calendar.
\<close>

theorem no_colon_is_fatal:
  assumes "decodeLine_loop r [] = ((buf, None), r1)" and "CHR '':'' \<notin> set buf"
  shows "decodeLine r f = (([], [], Some BadLine), r1) \<and>
         decode_loop f c r = Return_error BadLine \<and>
         decodeEvent_loop f e None r = (Inl BadLine, r1) \<and>
         (\<forall>r0 cal r2. decodeLine r0 f = ((''BEGIN'', ''VEVENT'', None), r2) \<and>
              decodeEvent r2 f = decodeEvent_loop f e None r
              \<longrightarrow> decode_loop f (Some cal) r0 = Return_error BadLine) \<and>
         (\<forall>rd. decode_loop f None rd = decode_loop f c r
              \<longrightarrow> decode long rd f = Returns (Inl BadLine))"
proof -
  have dl: "decodeLine r f = (([], [], Some BadLine), r1)"
    using decodeLine_of_buffer[OF assms(1), of f] assms(2) by (simp add: SplitN2_none)
  have top: "decode_loop f c r = Return_error BadLine"
    by (rule decode_loop_error[OF dl])
  have ev: "decodeEvent_loop f e None r = (Inl BadLine, r1)"
    by (simp add: decodeEvent_loop_None[OF dl] fixDates_def switch_key_def
          decodeEvent_loop_Some)
  have inner: "decode_loop f (Some cal) r0 = Return_error BadLine"
    if "decodeLine r0 f = ((''BEGIN'', ''VEVENT'', None), r2)"
      and "decodeEvent r2 f = decodeEvent_loop f e None r" for r0 cal r2
    using that(2) ev by (simp add: decode_loop_step[OF that(1)])
  have whole: "decode long rd f = Returns (Inl BadLine)"
    if "decode_loop f None rd = decode_loop f c r" for rd
    using that top by (simp add: decode_def)
  from dl top ev inner whole show ?thesis by blast
qed

theorem no_colon_is_fatal_witness:
  "decodeLine_loop \<lparr>unread = unlines [''NOCOLONHERE''], ending = EOF\<rparr> []
     = ((unlines [''NOCOLONHERE''], None), \<lparr>unread = [], ending = EOF\<rparr>) \<and>
   CHR '':'' \<notin> set (unlines [''NOCOLONHERE'']) \<and>
   decodeLine \<lparr>unread = unlines [''NOCOLONHERE''], ending = EOF\<rparr> True
     = (([], [], Some BadLine), \<lparr>unread = [], ending = EOF\<rparr>) \<and>
   Decode (\<lambda>l. l) \<lparr>unread = unlines [''NOCOLONHERE''], ending = EOF\<rparr>
     = Returns (Inl BadLine)"
proof -
  let ?r = "\<lparr>unread = unlines [''NOCOLONHERE''], ending = EOF\<rparr>"
  have l: "decodeLine_loop ?r [] = ((unlines [''NOCOLONHERE''], None), \<lparr>unread = [], ending = EOF\<rparr>)"
    using decodeLine_loop_last[of "''NOCOLONHERE''" "[]" EOF "[]"]
    by (simp add: unlines_def no_fold_def strip_sp_def char_defs)
  have c: "CHR '':'' \<notin> set (unlines [''NOCOLONHERE''])"
    by (simp add: unlines_def nl_def)
  from no_colon_is_fatal[OF l c, of True None new_Event "\<lambda>l. l"] l c show ?thesis
    by (simp add: Decode_def)
qed

subsection \<open>END:VCALENDAR before any BEGIN\<close>

text \<open>
  C10. When the first pair the top-level loop reads is \<^verbatim>\<open>END\<close> with value
  \<^verbatim>\<open>VCALENDAR\<close>, the loop breaks with the calendar pointer still nil, and \<^verbatim>\<open>decode\<close>
  panics at \<^verbatim>\<open>c.Event\<close> instead of returning a calendar or an error.
\<close>

theorem end_before_begin_panics:
  assumes "decodeLine rd f = ((''END'', ''VCALENDAR'', None), r1)"
  shows "decode_loop f None rd = Break None \<and> decode long rd f = Panics"
  by (simp add: decode_def decode_loop_step[OF assms])

theorem end_before_begin_panics_witness:
  "decodeLine \<lparr>unread = unlines [''END:VCALENDAR''], ending = EOF\<rparr> True
     = ((''END'', ''VCALENDAR'', None), \<lparr>unread = [], ending = EOF\<rparr>) \<and>
   Decode (\<lambda>l. l) \<lparr>unread = unlines [''END:VCALENDAR''], ending = EOF\<rparr> = Panics"
proof -
  have d: "decodeLine \<lparr>unread = unlines [''END:VCALENDAR''], ending = EOF\<rparr> True
     = ((''END'', ''VCALENDAR'', None), \<lparr>unread = [], ending = EOF\<rparr>)"
    using decodeLine_key_value[of "''END''" "''VCALENDAR''" "[]" EOF True]
    by (simp add: unlines_def no_fold_def Trim_def cutset_def char_defs)
  from end_before_begin_panics[OF d] d show ?thesis
    by (simp add: Decode_def)
qed

subsection \<open>Date keys and short dates\<close>

lemma fixDates_DTSTART:
  "7 \<le> length k \<Longrightarrow> take 7 k = ''DTSTART'' \<Longrightarrow> fixDates k = ''DTSTART''"
  by (simp add: fixDates_def)

lemma fixDates_DTEND:
  assumes "5 \<le> length k" and "take 5 k = ''DTEND''"
  shows "fixDates k = ''DTEND''"
proof -
  have "take 7 k \<noteq> ''DTSTART''"
  proof
    assume t: "take 7 k = ''DTSTART''"
    have "take 5 k = take 5 (take 7 k)" by simp
    also have "\<dots> = ''DTSTA''" by (simp add: t)
    finally show False using assms(2) by simp
  qed
  with assms show ?thesis by (simp add: fixDates_def)
qed

text \<open>
  C8. Inside event decoding a key that begins with \<^verbatim>\<open>DTSTART\<close> is handled as the bare
  key \<^verbatim>\<open>DTSTART\<close> is, and a key that begins with \<^verbatim>\<open>DTEND\<close> as the bare key \<^verbatim>\<open>DTEND\<close>
  is: two lines with the same value, one under the prefixed key and one under the bare
  key, take the event loop to the same result from the same event. In particular an
  event with the line \<^verbatim>\<open>DTSTART;VALUE=DATE:20230505\<close> decodes to the same event as one with
  the line \<^verbatim>\<open>DTSTART:20230505\<close>.
\<close>

theorem date_key_prefix:
  assumes "decodeLine r f = ((k, v, None), r1)" and "decodeLine r' f = ((k', v, None), r1)"
  shows "(7 \<le> length k \<and> take 7 k = ''DTSTART'' \<and> k' = ''DTSTART''
            \<longrightarrow> decodeEvent_loop f e None r = decodeEvent_loop f e None r') \<and>
         (5 \<le> length k \<and> take 5 k = ''DTEND'' \<and> k' = ''DTEND''
            \<longrightarrow> decodeEvent_loop f e None r = decodeEvent_loop f e None r')"
proof -
  have "fixDates ''DTSTART'' = ''DTSTART''" "fixDates ''DTEND'' = ''DTEND''"
    by (simp_all add: fixDates_def)
  then show ?thesis
    by (auto simp: decodeEvent_loop_None[OF assms(1)] decodeEvent_loop_None[OF assms(2)]
          fixDates_DTSTART fixDates_DTEND)
qed

theorem date_key_prefix_witness:
  "decodeEvent \<lparr>unread = unlines [''DTSTART;VALUE=DATE:20230505'', ''END:VEVENT''], ending = EOF\<rparr> True
     = decodeEvent \<lparr>unread = unlines [''DTSTART:20230505'', ''END:VEVENT''], ending = EOF\<rparr> True"
proof -
  let ?r1 = "\<lparr>unread = unlines [''END:VEVENT''], ending = EOF\<rparr>"
  have nf: "no_fold (unlines [''END:VEVENT''])"
    by (simp add: no_fold_def unlines_def sp_def)
  have a: "decodeLine \<lparr>unread = unlines [''DTSTART;VALUE=DATE:20230505'', ''END:VEVENT''],
              ending = EOF\<rparr> True = ((''DTSTART;VALUE=DATE'', ''20230505'', None), ?r1)"
    using decodeLine_key_value[of "''DTSTART;VALUE=DATE''" "''20230505''"
            "unlines [''END:VEVENT'']" EOF True] nf
    by (simp add: unlines_def Trim_def cutset_def char_defs)
  have b: "decodeLine \<lparr>unread = unlines [''DTSTART:20230505'', ''END:VEVENT''],
              ending = EOF\<rparr> True = ((''DTSTART'', ''20230505'', None), ?r1)"
    using decodeLine_key_value[of "''DTSTART''" "''20230505''"
            "unlines [''END:VEVENT'']" EOF True] nf
    by (simp add: unlines_def Trim_def cutset_def char_defs)
  from date_key_prefix[OF a b, of new_Event] show ?thesis
    by (simp add: decodeEvent_def)
qed

text \<open>
  C5. For a value of fewer than 8 characters \<^verbatim>\<open>decodeDate\<close> returns the zero time and no
  error; and when the event loop reads a line with such a value under a key that begins
  with \<^verbatim>\<open>DTSTART\<close> (or \<^verbatim>\<open>DTEND\<close>), it goes on without error with Start (or End) at the
  zero time. So \<^verbatim>\<open>DTSTART:2023\<close> followed by \<^verbatim>\<open>END:VEVENT\<close> decodes successfully to an
  event whose Start is unset.
\<close>

theorem short_date_left_unset:
  assumes "length v < 8"
  shows "decodeDate v = (zero_Time, None) \<and>
         (\<forall>r f k r1 e. decodeLine r f = ((k, v, None), r1) \<longrightarrow>
            (7 \<le> length k \<and> take 7 k = ''DTSTART'' \<longrightarrow>
               decodeEvent_loop f e None r = decodeEvent_loop f (e\<lparr>Start := zero_Time\<rparr>) None r1) \<and>
            (5 \<le> length k \<and> take 5 k = ''DTEND'' \<longrightarrow>
               decodeEvent_loop f e None r = decodeEvent_loop f (e\<lparr>End := zero_Time\<rparr>) None r1))"
proof -
  have u: "length (UnescapeText v) < 8"
    using UnescapeText_length[of v] assms by simp
  then have d: "decodeDate (UnescapeText v) = (zero_Time, None)"
    by (simp add: decodeDate_def)
  show ?thesis
    using assms d
    by (auto simp: decodeDate_def decodeEvent_loop_None fixDates_DTSTART fixDates_DTEND
          switch_key_def)
qed

theorem short_date_left_unset_witness:
  "length ''2023'' < 8 \<and> decodeDate ''2023'' = (zero_Time, None) \<and>
   decodeEvent \<lparr>unread = unlines [''DTSTART:2023'', ''END:VEVENT''], ending = EOF\<rparr> True
     = (Inr new_Event, \<lparr>unread = [], ending = EOF\<rparr>) \<and>
   IsZero (Start new_Event)"
proof -
  let ?r1 = "\<lparr>unread = unlines [''END:VEVENT''], ending = EOF\<rparr>"
  have nf: "no_fold (unlines [''END:VEVENT''])"
    by (simp add: no_fold_def unlines_def sp_def)
  have a: "decodeLine \<lparr>unread = unlines [''DTSTART:2023'', ''END:VEVENT''],
              ending = EOF\<rparr> True = ((''DTSTART'', ''2023'', None), ?r1)"
    using decodeLine_key_value[of "''DTSTART''" "''2023''"
            "unlines [''END:VEVENT'']" EOF True] nf
    by (simp add: unlines_def Trim_def cutset_def char_defs)
  have b: "decodeLine ?r1 True = ((''END'', ''VEVENT'', None), \<lparr>unread = [], ending = EOF\<rparr>)"
    using decodeLine_key_value[of "''END''" "''VEVENT''" "[]" EOF True]
    by (simp add: unlines_def no_fold_def Trim_def cutset_def char_defs)
  have u: "UnescapeText ''VEVENT'' = ''VEVENT''" by code_simp
  have l: "length ''2023'' < 8" by simp
  from short_date_left_unset[OF l] a
  have "decodeEvent_loop True new_Event None
          \<lparr>unread = unlines [''DTSTART:2023'', ''END:VEVENT''], ending = EOF\<rparr>
        = decodeEvent_loop True (new_Event\<lparr>Start := zero_Time\<rparr>) None ?r1"
    by simp
  with short_date_left_unset[OF l] show ?thesis
    by (simp add: decodeEvent_def decodeEvent_loop_None[OF b] fixDates_def u new_Event_def
          IsZero_def)
qed

subsection \<open>The end of the stream inside an event\<close>

text \<open>
  At the end of the stream \<^verbatim>\<open>decodeLine\<close> has an empty buffer to split, so it reports
  the "bad line" error; it never returns \<^verbatim>\<open>io.EOF\<close>.
\<close>

lemma decodeLine_loop_end_of_stream:
  "decodeLine_loop \<lparr>unread = [], ending = x\<rparr> buf =
     (if x = EOF then ((buf, None), \<lparr>unread = [], ending = x\<rparr>)
      else (([], Some x), \<lparr>unread = [], ending = x\<rparr>))"
  by (subst decodeLine_loop.simps) (simp add: ReadBytes_def)

lemma decodeLine_end_of_stream:
  "decodeLine \<lparr>unread = [], ending = x\<rparr> f =
     (([], [], Some (if x = EOF then BadLine else x)), \<lparr>unread = [], ending = x\<rparr>)"
  by (simp add: decodeLine_def decodeLine_loop_end_of_stream SplitN2_def)

lemma decodeLine_loop_never_EOF:
  "decodeLine_loop r buf = ((buf', lerr), r') \<Longrightarrow> lerr \<noteq> Some EOF"
proof (induction "length (unread r)" arbitrary: r buf rule: less_induct)
  case less
  obtain b err r1 where rb: "ReadBytes r nl = ((b, err), r1)"
    by (metis prod.exhaust)
  note unf = decodeLine_loop_unfold[OF rb, of buf]
  show ?case
  proof (cases "b = []")
    case True
    with ReadBytes_no_error[of r nl b r1] rb have "err \<noteq> None" by auto
    with True less.prems unf show ?thesis by (auto split: if_splits)
  next
    case False
    note lt = ReadBytes_shorter[OF rb False]
    have rec: "\<And>buf1. decodeLine_loop r1 buf1 = ((buf', lerr), r') \<Longrightarrow> lerr \<noteq> Some EOF"
      using less.hyps[OF lt] by blast
    from False less.prems unf rec show ?thesis
      by (auto split: if_splits prod.splits)
  qed
qed

lemma decodeLine_never_EOF:
  assumes "decodeLine r f = ((k, v, err), r1)"
  shows "err \<noteq> Some EOF"
proof -
  obtain buf lerr r2 where l: "decodeLine_loop r [] = ((buf, lerr), r2)"
    by (metis prod.exhaust)
  from decodeLine_loop_never_EOF[OF l] l assms show ?thesis
    by (auto simp: decodeLine_def Let_def split: if_splits)
qed

text \<open>
  Neither \<^verbatim>\<open>decodeDate\<close> nor the \<^verbatim>\<open>switch\<close> can produce \<^verbatim>\<open>io.EOF\<close> either, so the event
  loop returns an event only when it has just read \<^verbatim>\<open>END:VEVENT\<close>.
\<close>

lemma decodeDate_never_EOF: "snd (decodeDate v) \<noteq> Some EOF"
  by (simp add: decodeDate_def Parse_20060102_def Let_def)

lemma switch_key_never_EOF:
  assumes "switch_key k v e err1 = (e2, err2)" and "err1 \<noteq> Some EOF"
  shows "err2 \<noteq> Some EOF"
  using assms decodeDate_never_EOF[of v]
  by (auto simp: switch_key_def split: if_splits prod.splits)

lemma decodeEvent_loop_success:
  assumes "decodeEvent_loop f e err r = (Inr e', r')" and "err \<noteq> Some EOF"
  shows "\<exists>r0 k v. decodeLine r0 f = ((k, v, None), r') \<and> fixDates k = ''END'' \<and>
                   UnescapeText v = ''VEVENT''"
  using assms
proof (induction "if err \<noteq> None then 0 else Suc (length (unread r))"
         arbitrary: e err r rule: less_induct)
  case less
  show ?case
  proof (cases err)
    case (Some x)
    with less.prems show ?thesis
      by (auto simp: decodeEvent_loop_Some split: if_splits)
  next
    case None
    obtain key0 value0 err1 r1 where dl: "decodeLine r f = ((key0, value0, err1), r1)"
      by (metis prod.exhaust)
    note step = decodeEvent_loop_None[OF dl, of e]
    show ?thesis
    proof (cases "fixDates key0 = ''END'' \<and> UnescapeText value0 = ''VEVENT''")
      case True
      then have "key0 \<noteq> []" by (auto simp: fixDates_def)
      with decodeLine_cases[OF dl] have "err1 = None" by auto
      moreover from True less.prems(1) None step have "r' = r1" by simp
      ultimately show ?thesis using dl True by blast
    next
      case False
      obtain e2 err2 where sw: "switch_key (fixDates key0) (UnescapeText value0) e err1 = (e2, err2)"
        by (metis prod.exhaust)
      with False less.prems None step
      have rec: "decodeEvent_loop f e2 err2 r1 = (Inr e', r')" by auto
      have ne: "err2 \<noteq> Some EOF"
        using switch_key_never_EOF[OF sw] decodeLine_never_EOF[OF dl] by simp
      have "(if err2 \<noteq> None then 0 else Suc (length (unread r1)))
              < (if err \<noteq> None then 0 else Suc (length (unread r)))"
      proof (cases "err1 = None")
        case True
        with decodeLine_cases[OF dl] None show ?thesis by auto
      next
        case False
        with decodeLine_cases[OF dl] have "key0 = []" by auto
        with sw have "err2 = err1" by (simp add: fixDates_def switch_key_def)
        with False None show ?thesis by auto
      qed
      from less.hyps[OF this rec ne] show ?thesis .
    qed
  qed
qed

text \<open>
  C2 (what the code does). When the event loop stands at the end of a stream that ends
  with \<^verbatim>\<open>io.EOF\<close>, whatever event it has filled, it returns the "bad line" error and not
  the event: the \<^verbatim>\<open>err == io.EOF\<close> branch of \<^verbatim>\<open>decodeEvent\<close> is never taken, because
  \<^verbatim>\<open>decodeLine\<close> turns the end of the stream into the "bad line" error. So an event cut
  short after \<^verbatim>\<open>UID:1@test\<close> is not returned, and \<^verbatim>\<open>Decode\<close> of the calendar cut short
  there returns the error.
\<close>

theorem event_cut_short_fails:
  "decodeEvent_loop f e None \<lparr>unread = [], ending = EOF\<rparr>
     = (Inl BadLine, \<lparr>unread = [], ending = EOF\<rparr>) \<and>
   decodeEvent \<lparr>unread = unlines [''UID:1@test''], ending = EOF\<rparr> True
     = (Inl BadLine, \<lparr>unread = [], ending = EOF\<rparr>) \<and>
   Decode long \<lparr>unread = unlines [''BEGIN:VCALENDAR'', ''BEGIN:VEVENT'', ''UID:1@test''],
                 ending = EOF\<rparr> = Returns (Inl BadLine)"
proof -
  let ?end = "\<lparr>unread = [], ending = EOF\<rparr>"
  have stop: "decodeEvent_loop f e None ?end = (Inl BadLine, ?end)" for f e
    by (simp add: decodeEvent_loop_None[OF decodeLine_end_of_stream] fixDates_def
          switch_key_def decodeEvent_loop_Some)
  have nf: "no_fold (unlines [])" "no_fold (unlines [''UID:1@test''])"
    "no_fold (unlines [''BEGIN:VEVENT'', ''UID:1@test''])"
    by (simp_all add: no_fold_def unlines_def sp_def)
  have a: "decodeLine \<lparr>unread = unlines [''UID:1@test''], ending = EOF\<rparr> True
             = ((''UID'', ''1@test'', None), ?end)"
    using decodeLine_key_value[of "''UID''" "''1@test''" "[]" EOF True]
    by (simp add: unlines_def no_fold_def Trim_def cutset_def char_defs)
  have u: "UnescapeText ''1@test'' = ''1@test''" by code_simp
  have ev: "decodeEvent \<lparr>unread = unlines [''UID:1@test''], ending = EOF\<rparr> True
              = (Inl BadLine, ?end)"
    by (simp add: decodeEvent_def decodeEvent_loop_None[OF a] fixDates_def switch_key_def u stop)
  have b: "decodeLine \<lparr>unread = unlines [''BEGIN:VEVENT'', ''UID:1@test''], ending = EOF\<rparr> True
             = ((''BEGIN'', ''VEVENT'', None), \<lparr>unread = unlines [''UID:1@test''], ending = EOF\<rparr>)"
    using decodeLine_key_value[of "''BEGIN''" "''VEVENT''" "unlines [''UID:1@test'']" EOF True] nf
    by (simp add: unlines_def Trim_def cutset_def char_defs)
  have c: "decodeLine \<lparr>unread = unlines [''BEGIN:VCALENDAR'', ''BEGIN:VEVENT'', ''UID:1@test''],
              ending = EOF\<rparr> True
             = ((''BEGIN'', ''VCALENDAR'', None),
                \<lparr>unread = unlines [''BEGIN:VEVENT'', ''UID:1@test''], ending = EOF\<rparr>)"
    using decodeLine_key_value[of "''BEGIN''" "''VCALENDAR''"
            "unlines [''BEGIN:VEVENT'', ''UID:1@test'']" EOF True] nf
    by (simp add: unlines_def Trim_def cutset_def char_defs)
  have "Decode long \<lparr>unread = unlines [''BEGIN:VCALENDAR'', ''BEGIN:VEVENT'', ''UID:1@test''],
                 ending = EOF\<rparr> = Returns (Inl BadLine)"
    by (simp add: Decode_def decode_def decode_loop_step[OF c] decode_loop_step[OF b] ev)
  with stop ev show ?thesis by simp
qed

subsection \<open>Blank lines\<close>

lemma decodeEvent_loop_error:
  assumes "decodeLine r f = (([], [], Some x), r1)" and "x \<noteq> EOF"
  shows "decodeEvent_loop f e None r = (Inl x, r1)"
  using assms(2)
  by (simp add: decodeEvent_loop_None[OF assms(1)] fixDates_def switch_key_def
        decodeEvent_loop_Some)

lemma decodeLine_loop_blank:
  assumes "no_fold rest"
  shows "decodeLine_loop \<lparr>unread = nl # rest, ending = x\<rparr> buf
           = ((buf @ [nl], None), \<lparr>unread = rest, ending = x\<rparr>)"
  using decodeLine_loop_last[of "[]" rest x buf] assms
  by (simp add: strip_sp_def char_defs)

text \<open>
  C3 (what the code does). \<^verbatim>\<open>ReadBytes\<close> keeps the line terminator, so a blank raw line
  has length 1 (or 2 with a carriage return) and the \<^verbatim>\<open>len(b) == 0\<close> test does not skip
  it: when the input after it does not start with a space, the blank line is a logical
  line of its own, it holds no colon, and \<^verbatim>\<open>decodeLine\<close> fails with the "bad line" error
  in either mode; the top-level loop and the event loop return that error. The same
  input without the blank line gives the pair of the next property.
\<close>

theorem blank_line_fails:
  assumes "no_fold rest"
  shows "decodeLine \<lparr>unread = nl # rest, ending = x\<rparr> f
           = (([], [], Some BadLine), \<lparr>unread = rest, ending = x\<rparr>) \<and>
         decodeLine \<lparr>unread = cr # nl # rest, ending = x\<rparr> f
           = (([], [], Some BadLine), \<lparr>unread = rest, ending = x\<rparr>) \<and>
         decode_loop f c \<lparr>unread = nl # rest, ending = x\<rparr> = Return_error BadLine \<and>
         decodeEvent_loop f e None \<lparr>unread = nl # rest, ending = x\<rparr>
           = (Inl BadLine, \<lparr>unread = rest, ending = x\<rparr>)"
proof -
  have l1: "decodeLine_loop \<lparr>unread = nl # rest, ending = x\<rparr> []
              = (([nl], None), \<lparr>unread = rest, ending = x\<rparr>)"
    using decodeLine_loop_blank[OF assms, of x "[]"] by simp
  have l2: "decodeLine_loop \<lparr>unread = cr # nl # rest, ending = x\<rparr> []
              = (([cr, nl], None), \<lparr>unread = rest, ending = x\<rparr>)"
    using decodeLine_loop_last[of "[cr]" rest x "[]"] assms
    by (simp add: strip_sp_def char_defs)
  have ne: "CHR '':'' \<noteq> nl" "CHR '':'' \<noteq> cr"
    by (simp_all add: char_defs)
  have d1: "decodeLine \<lparr>unread = nl # rest, ending = x\<rparr> f
              = (([], [], Some BadLine), \<lparr>unread = rest, ending = x\<rparr>)"
    by (simp add: decodeLine_of_buffer[OF l1] SplitN2_def ne)
  have d2: "decodeLine \<lparr>unread = cr # nl # rest, ending = x\<rparr> f
              = (([], [], Some BadLine), \<lparr>unread = rest, ending = x\<rparr>)"
    by (simp add: decodeLine_of_buffer[OF l2] SplitN2_def ne)
  from d1 d2 decode_loop_error[OF d1] decodeEvent_loop_error[OF d1] show ?thesis
    by simp
qed

theorem blank_line_fails_witness:
  "no_fold (unlines [''B:2'']) \<and>
   decodeLine \<lparr>unread = unlines ['''', ''B:2''], ending = EOF\<rparr> True
     = (([], [], Some BadLine), \<lparr>unread = unlines [''B:2''], ending = EOF\<rparr>) \<and>
   decodeLine \<lparr>unread = unlines [''B:2''], ending = EOF\<rparr> True
     = ((''B'', ''2'', None), \<lparr>unread = [], ending = EOF\<rparr>)"
proof -
  have nf: "no_fold (unlines [''B:2''])"
    by (simp add: no_fold_def unlines_def sp_def)
  have b: "decodeLine \<lparr>unread = unlines [''B:2''], ending = EOF\<rparr> True
     = ((''B'', ''2'', None), \<lparr>unread = [], ending = EOF\<rparr>)"
    using decodeLine_key_value[of "''B''" "''2''" "[]" EOF True]
    by (simp add: unlines_def no_fold_def Trim_def cutset_def char_defs)
  from blank_line_fails[OF nf, of EOF True None new_Event] nf b show ?thesis
    by (simp add: unlines_def)
qed

subsection \<open>Folded lines\<close>

text \<open>
  The buffer of a line folded once: the terminator of the first raw line stays between
  the two pieces.
\<close>

lemma decodeLine_loop_folded:
  assumes "nl \<notin> set l1" and "nl \<notin> set l2" and "no_fold rest"
  shows "decodeLine_loop \<lparr>unread = l1 @ nl # sp # l2 @ nl # rest, ending = x\<rparr> buf
           = ((buf @ strip_sp (l1 @ [nl]) @ l2 @ [nl], None), \<lparr>unread = rest, ending = x\<rparr>)"
proof -
  have "nl \<notin> set (sp # l2)" using assms(2) by (simp add: char_defs)
  from decodeLine_loop_last[OF this assms(3), of x] show ?thesis
    by (simp add: decodeLine_loop_cont[OF assms(1)] strip_sp_def)
qed

text \<open>
  C4 (what the code does). The continuation's leading space is stripped, but the
  terminator of the raw line before it is not: \<^verbatim>\<open>DESCRIPTION:Hello\<close> continued by
  \<^verbatim>\<open> World\<close> gives the value \<^verbatim>\<open>Hello\<close>, newline, \<^verbatim>\<open>World\<close>, where the same property on one
  line gives \<^verbatim>\<open>HelloWorld\<close>; after \<^verbatim>\<open>UnescapeText\<close> the event's Description is
  \<^verbatim>\<open>Hello World\<close> against \<^verbatim>\<open>HelloWorld\<close>.
\<close>

theorem folded_line_keeps_newline:
  "decodeLine \<lparr>unread = unlines [''DESCRIPTION:Hello'', '' World''], ending = EOF\<rparr> True
     = ((''DESCRIPTION'', ''Hello'' @ [nl] @ ''World'', None), \<lparr>unread = [], ending = EOF\<rparr>) \<and>
   decodeLine \<lparr>unread = unlines [''DESCRIPTION:HelloWorld''], ending = EOF\<rparr> True
     = ((''DESCRIPTION'', ''HelloWorld'', None), \<lparr>unread = [], ending = EOF\<rparr>) \<and>
   decodeEvent \<lparr>unread = unlines [''DESCRIPTION:Hello'', '' World'', ''END:VEVENT''],
                 ending = EOF\<rparr> True
     = (Inr (new_Event\<lparr>Description := ''Hello World''\<rparr>), \<lparr>unread = [], ending = EOF\<rparr>) \<and>
   decodeEvent \<lparr>unread = unlines [''DESCRIPTION:HelloWorld'', ''END:VEVENT''],
                 ending = EOF\<rparr> True
     = (Inr (new_Event\<lparr>Description := ''HelloWorld''\<rparr>), \<lparr>unread = [], ending = EOF\<rparr>)"
proof -
  let ?end = "\<lparr>unread = [], ending = EOF\<rparr>"
  let ?r1 = "\<lparr>unread = unlines [''END:VEVENT''], ending = EOF\<rparr>"
  have nf: "no_fold []" "no_fold (unlines [''END:VEVENT''])"
    by (simp_all add: no_fold_def unlines_def sp_def)
  have fold: "decodeLine \<lparr>unread = unlines [''DESCRIPTION:Hello'', '' World''] @ rest,
                 ending = EOF\<rparr> True
     = ((''DESCRIPTION'', ''Hello'' @ [nl] @ ''World'', None), \<lparr>unread = rest, ending = EOF\<rparr>)"
    if "no_fold rest" for rest
  proof -
    have "decodeLine_loop \<lparr>unread = ''DESCRIPTION:Hello'' @ nl # sp # ''World'' @ nl # rest,
             ending = EOF\<rparr> []
          = ((''DESCRIPTION:Hello'' @ [nl] @ ''World'' @ [nl], None), \<lparr>unread = rest, ending = EOF\<rparr>)"
      using decodeLine_loop_folded[of "''DESCRIPTION:Hello''" "''World''" rest EOF "[]"] that
      by (simp add: strip_sp_def char_defs)
    then have "decodeLine_loop \<lparr>unread = unlines [''DESCRIPTION:Hello'', '' World''] @ rest,
             ending = EOF\<rparr> []
          = ((''DESCRIPTION:Hello'' @ [nl] @ ''World'' @ [nl], None), \<lparr>unread = rest, ending = EOF\<rparr>)"
      by (simp add: unlines_def sp_def)
    from decodeLine_of_buffer[OF this, of True] show ?thesis
      by (simp add: SplitN2_def Trim_def cutset_def char_defs)
  qed
  have plain: "decodeLine \<lparr>unread = unlines [''DESCRIPTION:HelloWorld''] @ rest,
                 ending = EOF\<rparr> True
     = ((''DESCRIPTION'', ''HelloWorld'', None), \<lparr>unread = rest, ending = EOF\<rparr>)"
    if "no_fold rest" for rest
    using decodeLine_key_value[of "''DESCRIPTION''" "''HelloWorld''" rest EOF True] that
    by (simp add: unlines_def Trim_def cutset_def char_defs)
  have e: "decodeLine ?r1 True = ((''END'', ''VEVENT'', None), ?end)"
    using decodeLine_key_value[of "''END''" "''VEVENT''" "[]" EOF True]
    by (simp add: unlines_def no_fold_def Trim_def cutset_def char_defs)
  have u: "UnescapeText ''VEVENT'' = ''VEVENT''"
    "UnescapeText (''Hello'' @ [nl] @ ''World'') = ''Hello World''"
    "UnescapeText ''HelloWorld'' = ''HelloWorld''"
    by code_simp+
  have s1: "unlines [''DESCRIPTION:Hello'', '' World'', ''END:VEVENT'']
              = unlines [''DESCRIPTION:Hello'', '' World''] @ unlines [''END:VEVENT'']"
    and s2: "unlines [''DESCRIPTION:HelloWorld'', ''END:VEVENT'']
              = unlines [''DESCRIPTION:HelloWorld''] @ unlines [''END:VEVENT'']"
    by (simp_all add: unlines_def)
  have ev1: "decodeEvent \<lparr>unread = unlines [''DESCRIPTION:Hello'', '' World'', ''END:VEVENT''],
                 ending = EOF\<rparr> True
     = (Inr (new_Event\<lparr>Description := ''Hello World''\<rparr>), ?end)"
    unfolding s1 decodeEvent_def
    by (simp add: decodeEvent_loop_None[OF fold[OF nf(2)]] decodeEvent_loop_None[OF e]
          fixDates_def switch_key_def u[simplified])
  have ev2: "decodeEvent \<lparr>unread = unlines [''DESCRIPTION:HelloWorld'', ''END:VEVENT''],
                 ending = EOF\<rparr> True
     = (Inr (new_Event\<lparr>Description := ''HelloWorld''\<rparr>), ?end)"
    unfolding s2 decodeEvent_def
    by (simp add: decodeEvent_loop_None[OF plain[OF nf(2)]] decodeEvent_loop_None[OF e]
          fixDates_def switch_key_def u)
  from fold[OF nf(1)] plain[OF nf(1)] ev1 ev2 show ?thesis by simp
qed

subsection \<open>The order of the returned events\<close>


















subsection \<open>The line reader of the second copy\<close>

text \<open>
  The copy reads with \<^verbatim>\<open>ReadLine\<close>, which strips the terminator: a blank raw line has
  length 0 and the loop skips it, and the pieces of a folded line are joined with
  nothing between them.
\<close>

lemma ReadLine_line:
  assumes "nl \<notin> set line" and "length line < defaultBufSize"
  shows "ReadLine \<lparr>unread = line @ nl # rest, ending = x\<rparr>
           = ((chomp line, False, None), \<lparr>unread = rest, ending = x\<rparr>)"
proof -
  have "take defaultBufSize (line @ nl # rest) = line @ take (defaultBufSize - length line) (nl # rest)"
    using assms(2) by simp
  moreover have "take (defaultBufSize - length line) (nl # rest) \<noteq> []"
    using assms(2) by simp
  then have "nl \<in> set (take (defaultBufSize - length line) (nl # rest))"
    by (cases "defaultBufSize - length line") auto
  ultimately have inb: "nl \<in> set (take defaultBufSize (line @ nl # rest))" by simp
  have t: "take (length (line @ [nl]) - (if 1 < length (line @ [nl]) \<and>
                (line @ [nl]) ! (length (line @ [nl]) - 2) = cr then 2 else 1)) (line @ [nl])
             = chomp line"
  proof (cases "line = []")
    case True
    then show ?thesis by (simp add: chomp_def)
  next
    case False
    then have "(line @ [nl]) ! (length (line @ [nl]) - 2) = last line"
      by (simp add: nth_append last_conv_nth)
    with False show ?thesis
      by (auto simp: chomp_def butlast_conv_take)
  qed
  show ?thesis
    using inb t by (simp add: ReadLine_def upto_delim_line[OF assms(1)] Let_def)
qed

lemma decodeLine2_loop_unfold:
  assumes "ReadLine r = ((b, False, None), r1)"
  shows "decodeLine2_loop r buf =
           (if length b = 0 then decodeLine2_loop r1 buf
            else (case Peek1 r1 of
                    (p, perr) \<Rightarrow>
                      if perr \<noteq> None then ((buf @ strip_sp b, None), r1)
                      else if hd p \<noteq> sp then ((buf @ strip_sp b, None), r1)
                      else decodeLine2_loop r1 (buf @ strip_sp b)))"
  unfolding strip_sp_def
  by (subst decodeLine2_loop.simps) (simp add: assms Let_def)

lemma decodeLine2_loop_blank:
  "decodeLine2_loop \<lparr>unread = nl # rest, ending = x\<rparr> buf
     = decodeLine2_loop \<lparr>unread = rest, ending = x\<rparr> buf"
  "decodeLine2_loop \<lparr>unread = cr # nl # rest, ending = x\<rparr> buf
     = decodeLine2_loop \<lparr>unread = rest, ending = x\<rparr> buf"
proof -
  have "ReadLine \<lparr>unread = [] @ nl # rest, ending = x\<rparr>
          = ((chomp [], False, None), \<lparr>unread = rest, ending = x\<rparr>)"
    by (rule ReadLine_line) (simp_all add: defaultBufSize_def)
  then have a: "ReadLine \<lparr>unread = nl # rest, ending = x\<rparr>
          = (([], False, None), \<lparr>unread = rest, ending = x\<rparr>)"
    by (simp add: chomp_def)
  have "ReadLine \<lparr>unread = [cr] @ nl # rest, ending = x\<rparr>
          = ((chomp [cr], False, None), \<lparr>unread = rest, ending = x\<rparr>)"
    by (rule ReadLine_line) (simp_all add: defaultBufSize_def char_defs)
  then have b: "ReadLine \<lparr>unread = cr # nl # rest, ending = x\<rparr>
          = (([], False, None), \<lparr>unread = rest, ending = x\<rparr>)"
    by (simp add: chomp_def)
  show "decodeLine2_loop \<lparr>unread = nl # rest, ending = x\<rparr> buf
     = decodeLine2_loop \<lparr>unread = rest, ending = x\<rparr> buf"
    by (simp add: decodeLine2_loop_unfold[OF a])
  show "decodeLine2_loop \<lparr>unread = cr # nl # rest, ending = x\<rparr> buf
     = decodeLine2_loop \<lparr>unread = rest, ending = x\<rparr> buf"
    by (simp add: decodeLine2_loop_unfold[OF b])
qed

lemma decodeLine2_blank:
  "decodeLine2 \<lparr>unread = nl # rest, ending = x\<rparr> = decodeLine2 \<lparr>unread = rest, ending = x\<rparr>"
  "decodeLine2 \<lparr>unread = cr # nl # rest, ending = x\<rparr> = decodeLine2 \<lparr>unread = rest, ending = x\<rparr>"
  by (simp_all add: decodeLine2_def decodeLine2_loop_blank)

lemma decodeLine2_loop_last:
  assumes "nl \<notin> set line" and "length line < defaultBufSize" and "chomp line \<noteq> []"
    and "no_fold rest"
  shows "decodeLine2_loop \<lparr>unread = line @ nl # rest, ending = x\<rparr> buf
           = ((buf @ strip_sp (chomp line), None), \<lparr>unread = rest, ending = x\<rparr>)"
  using assms(3,4)
  by (subst decodeLine2_loop_unfold[OF ReadLine_line[OF assms(1,2)]])
     (auto simp: Peek1_def no_fold_def split: list.splits)

lemma decodeLine2_loop_cont:
  assumes "nl \<notin> set line" and "length line < defaultBufSize" and "chomp line \<noteq> []"
  shows "decodeLine2_loop \<lparr>unread = line @ nl # sp # rest, ending = x\<rparr> buf
           = decodeLine2_loop \<lparr>unread = sp # rest, ending = x\<rparr> (buf @ strip_sp (chomp line))"
  using assms(3)
  by (subst decodeLine2_loop_unfold[OF ReadLine_line[OF assms(1,2)]])
     (auto simp: Peek1_def split: list.splits)

lemma decodeLine2_examples:
  "decodeLine2 \<lparr>unread = unlines [[], ''B:2''], ending = EOF\<rparr>
     = ((''B'', ''2'', None), \<lparr>unread = [], ending = EOF\<rparr>)"
  "decodeLine2 \<lparr>unread = unlines [''DESCRIPTION:Hello'', '' World''], ending = EOF\<rparr>
     = ((''DESCRIPTION'', ''HelloWorld'', None), \<lparr>unread = [], ending = EOF\<rparr>)"
  "decodeLine2 \<lparr>unread = unlines [''DESCRIPTION:HelloWorld''], ending = EOF\<rparr>
     = ((''DESCRIPTION'', ''HelloWorld'', None), \<lparr>unread = [], ending = EOF\<rparr>)"
proof -
  let ?end = "\<lparr>unread = [], ending = EOF\<rparr>"
  have nf: "no_fold []" by (simp add: no_fold_def)
  have s: "strip_sp (chomp ''B:2'') = ''B:2''"
    "strip_sp (chomp ''DESCRIPTION:Hello'') = ''DESCRIPTION:Hello''"
    "strip_sp (chomp (sp # ''World'')) = ''World''"
    "strip_sp (chomp ''DESCRIPTION:HelloWorld'') = ''DESCRIPTION:HelloWorld''"
    by (simp_all add: chomp_def strip_sp_def char_defs)
  have i: "unlines [[], ''B:2''] = nl # ''B:2'' @ nl # []"
    "unlines [''DESCRIPTION:Hello'', '' World''] = ''DESCRIPTION:Hello'' @ nl # sp # ''World'' @ nl # []"
    "unlines [''DESCRIPTION:HelloWorld''] = ''DESCRIPTION:HelloWorld'' @ nl # []"
    by (simp_all add: unlines_def sp_def)
  have a: "decodeLine2_loop \<lparr>unread = ''B:2'' @ nl # [], ending = EOF\<rparr> []
             = (([] @ strip_sp (chomp ''B:2''), None), ?end)"
    by (rule decodeLine2_loop_last) (simp_all add: nf defaultBufSize_def chomp_def char_defs)
  have b: "decodeLine2_loop \<lparr>unread = ''DESCRIPTION:Hello'' @ nl # sp # ''World'' @ nl # [],
              ending = EOF\<rparr> []
             = decodeLine2_loop \<lparr>unread = sp # ''World'' @ nl # [], ending = EOF\<rparr>
                 ([] @ strip_sp (chomp ''DESCRIPTION:Hello''))"
    by (rule decodeLine2_loop_cont) (simp_all add: defaultBufSize_def chomp_def char_defs)
  have c: "decodeLine2_loop \<lparr>unread = (sp # ''World'') @ nl # [], ending = EOF\<rparr> buf
             = ((buf @ strip_sp (chomp (sp # ''World'')), None), ?end)"
    for buf
    by (rule decodeLine2_loop_last) (simp_all add: nf defaultBufSize_def chomp_def char_defs)
  have d: "decodeLine2_loop \<lparr>unread = ''DESCRIPTION:HelloWorld'' @ nl # [], ending = EOF\<rparr> []
             = (([] @ strip_sp (chomp ''DESCRIPTION:HelloWorld''), None), ?end)"
    by (rule decodeLine2_loop_last) (simp_all add: nf defaultBufSize_def chomp_def char_defs)
  have l1: "decodeLine2_loop \<lparr>unread = unlines [[], ''B:2''], ending = EOF\<rparr> []
              = ((''B:2'', None), ?end)"
    unfolding i decodeLine2_loop_blank a s by simp
  have l2: "decodeLine2_loop \<lparr>unread = unlines [''DESCRIPTION:Hello'', '' World''],
              ending = EOF\<rparr> [] = ((''DESCRIPTION:HelloWorld'', None), ?end)"
    unfolding i b s using c[of "[] @ ''DESCRIPTION:Hello''"] by (simp add: s)
  have l3: "decodeLine2_loop \<lparr>unread = unlines [''DESCRIPTION:HelloWorld''], ending = EOF\<rparr> []
              = ((''DESCRIPTION:HelloWorld'', None), ?end)"
    unfolding i d s by simp
  show "decodeLine2 \<lparr>unread = unlines [[], ''B:2''], ending = EOF\<rparr>
     = ((''B'', ''2'', None), ?end)"
    by (simp add: decodeLine2_def l1 SplitN2_def)
  show "decodeLine2 \<lparr>unread = unlines [''DESCRIPTION:Hello'', '' World''], ending = EOF\<rparr>
     = ((''DESCRIPTION'', ''HelloWorld'', None), ?end)"
    by (simp add: decodeLine2_def l2 SplitN2_def)
  show "decodeLine2 \<lparr>unread = unlines [''DESCRIPTION:HelloWorld''], ending = EOF\<rparr>
     = ((''DESCRIPTION'', ''HelloWorld'', None), ?end)"
    by (simp add: decodeLine2_def l3 SplitN2_def)
qed

lemma decodeDate2_short: "length v < 8 \<Longrightarrow> decodeDate2 v = Panics"
  by (simp add: decodeDate2_def)

end
